theory Spec2Isabelle
  imports Main "HOL-Library.Word"
begin

unbundle bit_operations_syntax

section \<open>Hardware constants and static tables (Relay_Timer2.ino)\<close>

text \<open>
  The sketch exists in two variants that share \<open>loop()\<close>, \<open>displayTime\<close> and \<open>displayMessage\<close>
  word for word and differ in how a segment pattern reaches the display. This theory
  follows the variant that drives the segment lines directly (\<open>updateSegments\<close>).
\<close>

text \<open>
  Pin numbers and logic levels are \<open>uint8_t\<close> values. \<open>LOW\<close>, \<open>HIGH\<close> and the analog pin
  numbers \<open>A0 .. A5\<close> come from the Arduino core of the Uno/Nano boards the sketch names
  (\<open>LOW = 0\<close>, \<open>HIGH = 1\<close>, \<open>A0 = 14\<close>).
\<close>

type_synonym pin = "8 word"
type_synonym level = "8 word"

definition LOW :: level where
  "LOW = 0"

definition HIGH :: level where
  "HIGH = 1"

definition OUTPUT_PIN :: pin where
  "OUTPUT_PIN = 10"

text \<open>Digit multiplex selection: index 0 is the least significant digit, index 3 the most.\<close>

definition digitPin :: "pin list" where
  "digitPin = [4, 5, 6, 7]"

text \<open>Segment multiplex selection, in order A B C D E F G DP (12, 13, A0 .. A5).\<close>

definition segmentPin :: "pin list" where
  "segmentPin = [12, 13, 14, 15, 16, 17, 18, 19]"

definition digits :: "8 word list" where
  "digits = [0x3f, 0x06, 0x5b, 0x4f, 0x66, 0x6d, 0x7d, 0x07, 0x7f, 0x6f]"

definition alpha :: "8 word list" where
  "alpha = [0x77, 0x7c, 0x39, 0x5e, 0x79, 0x71,
            0x3d, 0x76, 0x06, 0x0e, 0x00, 0x38,
            0x00, 0x54, 0x3f, 0x73, 0x67, 0x60,
            0x6d, 0x78, 0x3e, 0x3e, 0x00, 0x00,
            0x6e, 0x5b]"

definition DECIMAL :: "8 word" where
  "DECIMAL = 0x80"

definition DIGIT_ON :: level where
  "DIGIT_ON = LOW"

definition DIGIT_OFF :: level where
  "DIGIT_OFF = HIGH"

definition SEGMENT_ON :: level where
  "SEGMENT_ON = (if DIGIT_ON = HIGH then LOW else HIGH)"

definition SEGMENT_OFF :: level where
  "SEGMENT_OFF = (if DIGIT_OFF = HIGH then LOW else HIGH)"

datatype state_t = S_INIT | S_IDLE | S_START | S_RUNNING | S_PAUSE | S_END

definition TIME_MAX_MINUTES :: "8 word" where
  "TIME_MAX_MINUTES = 99"

definition TIME_INTERVAL :: "8 word" where
  "TIME_INTERVAL = 5"

definition TIME_MAX_SP :: "16 word" where
  "TIME_MAX_SP = word_of_int ((uint TIME_MAX_MINUTES * 60 + 59) div uint TIME_INTERVAL)"

section \<open>Pin writes\<close>

text \<open>
  Every \<open>digitalWrite(pin, val)\<close> of the sketch is recorded, in program order, as an event.
  The level of a pin is what the last write to it left there; a pin that was never
  written is \<open>LOW\<close>, the power-on level of an AVR output.
\<close>

datatype event = DigitalWrite (pin_of: pin) (level_of: level)

definition digitalWrite :: "(pin \<Rightarrow> level) \<Rightarrow> event \<Rightarrow> (pin \<Rightarrow> level)" where
  "digitalWrite pins e = pins(pin_of e := (if level_of e = LOW then LOW else HIGH))"

definition replay :: "(pin \<Rightarrow> level) \<Rightarrow> event list \<Rightarrow> (pin \<Rightarrow> level)" where
  "replay pins es = foldl digitalWrite pins es"

definition power_on :: "pin \<Rightarrow> level" where
  "power_on = (\<lambda>p. LOW)"

section \<open>Display routines\<close>

text \<open>
  \<open>updateSegments\<close>: the loop over the eight segment pins, writing bit 0 of \<open>val\<close> and
  shifting \<open>val\<close> right by one each round.
\<close>

fun updateSegments_step :: "8 word \<times> event list \<Rightarrow> nat \<Rightarrow> 8 word \<times> event list" where
  "updateSegments_step (val, es) i =
     (drop_bit 1 val,
      es @ [DigitalWrite (segmentPin ! i) (if val AND 1 \<noteq> 0 then SEGMENT_ON else SEGMENT_OFF)])"

definition updateSegments :: "8 word \<Rightarrow> event list" where
  "updateSegments val = snd (foldl updateSegments_step (val, []) [0..<length segmentPin])"

text \<open>The inner loop of both display routines: turn all the digits off.\<close>

definition digits_off :: "event list" where
  "digits_off = map (\<lambda>j. DigitalWrite (digitPin ! j) DIGIT_OFF) [0..<length digitPin]"

text \<open>
  \<open>displayTime(val, decDigit)\<close>: one round per digit position \<open>i = 0 .. 3\<close>, taking the
  decimal digits of \<open>val\<close> from the least significant one.
\<close>

fun displayTime_step :: "8 word \<Rightarrow> 16 word \<times> event list \<Rightarrow> nat \<Rightarrow> 16 word \<times> event list" where
  "displayTime_step decDigit (val, es) i =
     (let dig = (ucast (val mod 10) :: 8 word);
          val' = val div 10
      in (val',
          es @ digits_off
             @ updateSegments (digits ! unat dig + (if decDigit = of_nat i then DECIMAL else 0))
             @ [DigitalWrite (digitPin ! i) DIGIT_ON]))"

definition displayTime :: "16 word \<Rightarrow> 8 word \<Rightarrow> event list" where
  "displayTime val decDigit =
     snd (foldl (displayTime_step decDigit) (val, []) [0..<length digitPin])"

text \<open>
  \<open>displayMessage\<close> reads the table \<open>alpha\<close> at the offset of the upper-case form of the
  current character from the letter A (\<open>toupper\<close> of the character, minus 65), without a range
  check. For an offset outside the table the byte read is whatever program memory holds
  there: the parameter \<open>fl\<close> stands for that memory.
\<close>

type_synonym flash = "int \<Rightarrow> 8 word"

definition pgm_read_alpha :: "flash \<Rightarrow> int \<Rightarrow> 8 word" where
  "pgm_read_alpha fl k = (if 0 \<le> k \<and> k < int (length alpha) then alpha ! nat k else fl k)"

definition toupper :: "int \<Rightarrow> int" where
  "toupper c = (if 97 \<le> c \<and> c \<le> 122 then c - 32 else c)"

definition char_val :: "char \<Rightarrow> int" where
  "char_val c = sint (of_char c :: 8 word)"

fun displayMessage_step :: "flash \<Rightarrow> string \<times> event list \<Rightarrow> nat \<Rightarrow> string \<times> event list" where
  "displayMessage_step fl (p, es) i =
     (let (v, p') = (case p of
                       [] \<Rightarrow> (0, p)
                     | c # cs \<Rightarrow> if char_val c \<noteq> 0
                                then (pgm_read_alpha fl (toupper (char_val c) - 65), cs)
                                else (0, p))
      in (p', es @ digits_off @ updateSegments v @ [DigitalWrite (digitPin ! i) DIGIT_ON]))"

text \<open>One pass of the body of the \<open>while\<close> loop: digit positions 3 down to 0.\<close>

definition displayMessage_frame :: "flash \<Rightarrow> string \<Rightarrow> event list" where
  "displayMessage_frame fl pMesg =
     snd (foldl (displayMessage_step fl) (pMesg, []) (rev [0..<length digitPin]))"

text \<open>
  The clock is the list of the values that successive calls of \<open>millis()\<close> return. The
  \<open>while\<close> loop of \<open>displayMessage\<close> reads the clock once per test of its condition; when the
  readings run out before the duration has passed, the routine has not returned (\<open>None\<close>).
  The result is the writes made and the readings left.
\<close>

fun displayMessage_while ::
  "flash \<Rightarrow> string \<Rightarrow> 32 word \<Rightarrow> 16 word \<Rightarrow> 32 word list \<Rightarrow> (event list \<times> 32 word list) option" where
  "displayMessage_while fl pMesg startTime duration [] = None"
| "displayMessage_while fl pMesg startTime duration (t # ts) =
     (if t - startTime < ucast duration
      then (case displayMessage_while fl pMesg startTime duration ts of
              None \<Rightarrow> None
            | Some (es, rest) \<Rightarrow> Some (displayMessage_frame fl pMesg @ es, rest))
      else Some ([], ts))"

definition displayMessage ::
  "flash \<Rightarrow> string \<Rightarrow> 16 word \<Rightarrow> 32 word list \<Rightarrow> (event list \<times> 32 word list) option" where
  "displayMessage fl pMesg duration clk =
     (case clk of
        [] \<Rightarrow> None
      | startTime # ts \<Rightarrow> displayMessage_while fl pMesg startTime duration ts)"

section \<open>The timer state machine\<close>

text \<open>
  The result alphabets of the two input libraries (MD_REncoder and MD_KeySwitch, not part
  of the sketch): the encoder yields one of three directions; of the key results the
  sketch names \<open>KS_PRESS\<close> and \<open>KS_LONGPRESS\<close>, \<open>KS_NULL\<close> is no key, and \<open>KS_OTHER\<close> stands for
  any further result of the library.
\<close>

datatype dir_t = DIR_NONE | DIR_CW | DIR_CCW

datatype keyResult_t = KS_NULL | KS_PRESS | KS_LONGPRESS | KS_OTHER

text \<open>What one pass of \<open>loop()\<close> reads from its environment.\<close>

record inputs =
  clock :: "32 word list"
  enc :: dir_t
  key :: keyResult_t

text \<open>
  The static variables of \<open>loop()\<close>, and the pin writes made since power-on.
  \<open>minutes\<close> and \<open>seconds\<close> are \<open>int8_t\<close>: their value is read with \<open>sint\<close>.
\<close>

record machine =
  state :: state_t
  setPoint :: "16 word"
  minutes :: "8 word"
  seconds :: "8 word"
  timeStart :: "32 word"
  inMessage :: bool
  writes :: "event list"

definition emit :: "event list \<Rightarrow> machine \<Rightarrow> machine" where
  "emit es m = m\<lparr>writes := writes m @ es\<rparr>"

text \<open>The argument \<open>(minutes*100)+seconds\<close> of \<open>displayTime\<close>, converted to \<open>uint16_t\<close>.\<close>

definition time_value :: "machine \<Rightarrow> 16 word" where
  "time_value m = word_of_int (sint (minutes m) * 100 + sint (seconds m))"

definition case_INIT :: "machine \<Rightarrow> machine" where
  "case_INIT m =
     (let totalSeconds = setPoint m * ucast TIME_INTERVAL;
          m1 = m\<lparr>seconds := ucast (totalSeconds mod 60)\<rparr>;
          m2 = m1\<lparr>minutes := ucast (totalSeconds div 60)\<rparr>;
          m3 = (if sint (minutes m2) > uint TIME_MAX_MINUTES
                then m2\<lparr>minutes := TIME_MAX_MINUTES\<rparr> else m2)
      in m3\<lparr>state := S_IDLE\<rparr>)"

definition case_IDLE :: "inputs \<Rightarrow> machine \<Rightarrow> machine" where
  "case_IDLE inp m =
     (let x = enc inp;
          m1 = (case x of
                  DIR_CW \<Rightarrow> if setPoint m < TIME_MAX_SP then m\<lparr>setPoint := setPoint m + 1\<rparr> else m
                | DIR_CCW \<Rightarrow> if setPoint m > 0 then m\<lparr>setPoint := setPoint m - 1\<rparr> else m
                | DIR_NONE \<Rightarrow> m);
          m2 = (if x \<noteq> DIR_NONE then m1\<lparr>state := S_INIT\<rparr> else m1)
      in if key inp = KS_PRESS \<and> setPoint m2 \<noteq> 0 then m2\<lparr>state := S_START\<rparr> else m2)"

definition case_START :: "inputs \<Rightarrow> machine \<Rightarrow> machine option" where
  "case_START inp m =
     (case clock inp of
        [] \<Rightarrow> None
      | now # rest \<Rightarrow>
          Some ((emit [DigitalWrite OUTPUT_PIN HIGH] (m\<lparr>timeStart := now\<rparr>))\<lparr>state := S_RUNNING\<rparr>))"

text \<open>The time counter of \<open>S_RUNNING\<close>, entered when \<open>millis() - timeStart >= 1000\<close>.\<close>

definition time_counter :: "machine \<Rightarrow> machine" where
  "time_counter m =
     (let m1 = m\<lparr>timeStart := timeStart m + 1000\<rparr>
      in if seconds m1 \<noteq> 0 then m1\<lparr>seconds := seconds m1 - 1\<rparr>
         else (let m2 = m1\<lparr>seconds := 59\<rparr>
               in if minutes m2 \<noteq> 0 then m2\<lparr>minutes := minutes m2 - 1\<rparr>
                  else m2\<lparr>state := S_END\<rparr>))"

definition case_RUNNING :: "inputs \<Rightarrow> machine \<Rightarrow> machine option" where
  "case_RUNNING inp m =
     (case clock inp of
        [] \<Rightarrow> None
      | now # rest \<Rightarrow>
          (let m1 = (if now - timeStart m \<ge> 1000 then time_counter m else m)
           in Some (if key inp = KS_PRESS then m1\<lparr>state := S_PAUSE\<rparr> else m1)))"

definition case_PAUSE :: "flash \<Rightarrow> inputs \<Rightarrow> machine \<Rightarrow> machine option" where
  "case_PAUSE fl inp m =
     (case displayMessage fl ''pause'' 50 (clock inp) of
        None \<Rightarrow> None
      | Some (es, rest) \<Rightarrow>
          (let m1 = emit es (m\<lparr>inMessage := True\<rparr>)
           in case key inp of
                KS_PRESS \<Rightarrow>
                  (case rest of
                     [] \<Rightarrow> None
                   | now # rest' \<Rightarrow>
                       Some (m1\<lparr>timeStart := now, inMessage := False, state := S_RUNNING\<rparr>))
              | KS_LONGPRESS \<Rightarrow> Some (m1\<lparr>inMessage := False, state := S_END\<rparr>)
              | _ \<Rightarrow> Some m1))"

definition case_END :: "flash \<Rightarrow> inputs \<Rightarrow> machine \<Rightarrow> machine option" where
  "case_END fl inp m =
     (let m1 = emit [DigitalWrite OUTPUT_PIN LOW] m
      in case displayMessage fl ''end'' 2000 (clock inp) of
           None \<Rightarrow> None
         | Some (es, rest) \<Rightarrow> Some ((emit es m1)\<lparr>state := S_INIT\<rparr>))"

text \<open>
  One pass of \<open>loop()\<close>. \<open>state_t\<close> has no value beyond the six, so the \<open>default\<close> branch of
  the \<open>switch\<close> has no counterpart here.
\<close>

definition loop :: "flash \<Rightarrow> inputs \<Rightarrow> machine \<Rightarrow> machine option" where
  "loop fl inp m0 =
     (let m = (if \<not> inMessage m0 then emit (displayTime (time_value m0) 2) m0 else m0)
      in case state m of
           S_INIT \<Rightarrow> Some (case_INIT m)
         | S_IDLE \<Rightarrow> Some (case_IDLE inp m)
         | S_START \<Rightarrow> case_START inp m
         | S_RUNNING \<Rightarrow> case_RUNNING inp m
         | S_PAUSE \<Rightarrow> case_PAUSE fl inp m
         | S_END \<Rightarrow> case_END fl inp m)"

text \<open>
  \<open>setup()\<close>: all digit and segment lines off, then the greeting. The result is the machine
  that the first pass of \<open>loop()\<close> finds: the initial values of the static variables.
\<close>

definition setup_board :: "flash \<Rightarrow> 32 word list \<Rightarrow> machine option" where
  "setup_board fl clk =
     (let es1 = map (\<lambda>i. DigitalWrite (digitPin ! i) DIGIT_OFF) [0..<length digitPin];
          es2 = map (\<lambda>i. DigitalWrite (segmentPin ! i) SEGMENT_OFF) [0..<length segmentPin]
      in case displayMessage fl ''helo'' 2000 clk of
           None \<Rightarrow> None
         | Some (es3, rest) \<Rightarrow>
             Some \<lparr>state = S_INIT, setPoint = 0, minutes = 0, seconds = 0, timeStart = 0,
                   inMessage = False, writes = es1 @ es2 @ es3\<rparr>)"

text \<open>Successive passes of \<open>loop()\<close>, one element of the input list per pass.\<close>

fun run :: "flash \<Rightarrow> inputs list \<Rightarrow> machine \<Rightarrow> machine option" where
  "run fl [] m = Some m"
| "run fl (inp # inps) m =
     (case loop fl inp m of None \<Rightarrow> None | Some m' \<Rightarrow> run fl inps m')"

text \<open>The level of the relay output pin.\<close>

definition relay :: "machine \<Rightarrow> level" where
  "relay m = replay power_on (writes m) OUTPUT_PIN"

section \<open>Observations on machines and on pin writes\<close>

text \<open>The levels written to the relay output, in order.\<close>

definition relay_writes :: "event list \<Rightarrow> level list" where
  "relay_writes es = map level_of (filter (\<lambda>e. pin_of e = OUTPUT_PIN) es)"

text \<open>The writes that a pass from \<open>m\<close> to \<open>m'\<close> added.\<close>

definition new_writes :: "machine \<Rightarrow> machine \<Rightarrow> event list" where
  "new_writes m m' = drop (length (writes m)) (writes m')"

text \<open>The machine as the \<open>switch\<close> of a pass finds it: after the call of \<open>displayTime\<close>, if any.\<close>

definition shown :: "machine \<Rightarrow> machine" where
  "shown m = (if \<not> inMessage m then emit (displayTime (time_value m) 2) m else m)"

text \<open>The remaining duration in seconds.\<close>

definition remaining :: "machine \<Rightarrow> int" where
  "remaining m = sint (minutes m) * 60 + sint (seconds m)"

text \<open>The digit-select lines that are enabled at given pin levels.\<close>

definition enabled_digits :: "(pin \<Rightarrow> level) \<Rightarrow> pin list" where
  "enabled_digits pins = filter (\<lambda>p. pins p = DIGIT_ON) digitPin"

text \<open>
  A sequence of writes multiplexes correctly from given pin levels when every write to a
  segment line finds all digit-select lines disabled, and no write leaves more than one
  digit-select line enabled.
\<close>

fun multiplex_ok :: "(pin \<Rightarrow> level) \<Rightarrow> event list \<Rightarrow> bool" where
  "multiplex_ok pins [] = True"
| "multiplex_ok pins (e # es) =
     ((if pin_of e \<in> set segmentPin then enabled_digits pins = [] else True)
      \<and> length (enabled_digits (digitalWrite pins e)) \<le> 1
      \<and> multiplex_ok (digitalWrite pins e) es)"

text \<open>
  The shape of the writes for one digit position: all four digit-select lines disabled,
  then the eight segment lines written in order, then one digit-select line enabled.
\<close>

definition is_round :: "event list \<Rightarrow> bool" where
  "is_round r =
     (length r = 13
      \<and> take 4 r = map (\<lambda>p. DigitalWrite p DIGIT_OFF) digitPin
      \<and> map pin_of (take 8 (drop 4 r)) = segmentPin
      \<and> pin_of (r ! 12) \<in> set digitPin \<and> level_of (r ! 12) = DIGIT_ON)"

text \<open>The segment pattern that the segment lines hold: bit \<open>i\<close> is segment \<open>i\<close> of A .. G, DP.\<close>

definition segments_value :: "(pin \<Rightarrow> level) \<Rightarrow> 8 word" where
  "segments_value pins = horner_sum of_bool 2 (map (\<lambda>p. pins p = SEGMENT_ON) segmentPin)"

text \<open>
  What a sequence of writes lights up: for each write that enables a digit-select line,
  that line and the segment pattern present at that moment.
\<close>

fun lit :: "(pin \<Rightarrow> level) \<Rightarrow> event list \<Rightarrow> (pin \<times> 8 word) list" where
  "lit pins [] = []"
| "lit pins (e # es) =
     (let pins' = digitalWrite pins e
      in (if pin_of e \<in> set digitPin \<and> pins' (pin_of e) = DIGIT_ON
          then [(pin_of e, segments_value pins')] else [])
         @ lit pins' es)"

text \<open>
  The circuit connections of the sketch: D7 drives digit 1 of the display, D6 digit 2,
  D5 digit 3 and D4 digit 4; digit 1 is the leftmost digit of the display.
\<close>

definition display_digit :: "pin \<Rightarrow> nat" where
  "display_digit p = (if p = 7 then 1 else if p = 6 then 2 else if p = 5 then 3 else 4)"

definition left_to_right :: "(pin \<times> 8 word) list \<Rightarrow> 8 word list" where
  "left_to_right lights =
     concat (map (\<lambda>d. map snd (filter (\<lambda>(p, v). display_digit p = d) lights)) [1, 2, 3, 4])"

section \<open>A simulated run\<close>

definition fl0 :: flash where
  "fl0 = (\<lambda>k. 0)"

definition pass :: "32 word list \<Rightarrow> dir_t \<Rightarrow> keyResult_t \<Rightarrow> inputs" where
  "pass c e k = \<lparr>clock = c, enc = e, key = k\<rparr>"

text \<open>
  From power-on: the greeting, one clockwise step that makes the set point 1 (5 seconds),
  a key press, and the start of the timer at 3000 ms.
\<close>

definition arm_5s :: "inputs list" where
  "arm_5s = [pass [] DIR_NONE KS_NULL, pass [] DIR_CW KS_NULL, pass [] DIR_NONE KS_NULL,
             pass [] DIR_NONE KS_PRESS, pass [3000] DIR_NONE KS_NULL]"

text \<open>Passes that read the given clock values, with no encoder step and no key.\<close>

definition polls :: "32 word list \<Rightarrow> inputs list" where
  "polls ts = map (\<lambda>t. pass [t] DIR_NONE KS_NULL) ts"

definition run_from_boot :: "32 word list \<Rightarrow> inputs list \<Rightarrow> machine option" where
  "run_from_boot clk inps =
     (case setup_board fl0 clk of None \<Rightarrow> None | Some m0 \<Rightarrow> run fl0 inps m0)"

definition observe :: "machine \<Rightarrow> state_t \<times> int \<times> int \<times> level \<times> level list" where
  "observe m = (state m, sint (minutes m), sint (seconds m), relay m, relay_writes (writes m))"

text \<open>A machine in \<open>S_INIT\<close> with the largest set point.\<close>

definition m_init_max :: machine where
  "m_init_max = \<lparr>state = S_INIT, setPoint = 1199, minutes = 0, seconds = 0, timeStart = 0,
                  inMessage = False, writes = []\<rparr>"

text \<open>A machine in \<open>S_IDLE\<close> with the largest set point, and a burst of encoder steps.\<close>

definition m_idle_max :: machine where
  "m_idle_max = \<lparr>state = S_IDLE, setPoint = 1199, minutes = 99, seconds = 55, timeStart = 0,
                  inMessage = False, writes = []\<rparr>"

definition enc_spam :: "inputs list" where
  "enc_spam = [pass [] DIR_CW KS_NULL, pass [] DIR_NONE KS_NULL, pass [] DIR_CW KS_NULL,
               pass [] DIR_NONE KS_NULL, pass [] DIR_CCW KS_NULL]"

text \<open>A running machine at 0:00 whose last decrement instant was 8000 ms.\<close>

definition m_zero :: machine where
  "m_zero = \<lparr>state = S_RUNNING, setPoint = 1, minutes = 0, seconds = 0, timeStart = 8000,
              inMessage = False, writes = []\<rparr>"

text \<open>A paused machine at 0:03, and a running one.\<close>

definition m_paused :: machine where
  "m_paused = \<lparr>state = S_PAUSE, setPoint = 1, minutes = 0, seconds = 3, timeStart = 20,
                inMessage = True, writes = []\<rparr>"

definition m_running :: machine where
  "m_running = \<lparr>state = S_RUNNING, setPoint = 1, minutes = 0, seconds = 3, timeStart = 20,
                 inMessage = False, writes = []\<rparr>"

text \<open>
  The levels that the handler of a state writes to the relay output, and the states that
  the handler of a state can leave behind.
\<close>

definition relay_step :: "state_t \<Rightarrow> level list" where
  "relay_step s = (case s of S_START \<Rightarrow> [HIGH] | S_END \<Rightarrow> [LOW] | _ \<Rightarrow> [])"

definition next_states :: "state_t \<Rightarrow> state_t set" where
  "next_states s =
     (case s of
        S_INIT \<Rightarrow> {S_IDLE}
      | S_IDLE \<Rightarrow> {S_IDLE, S_INIT, S_START}
      | S_START \<Rightarrow> {S_RUNNING}
      | S_RUNNING \<Rightarrow> {S_RUNNING, S_PAUSE, S_END}
      | S_PAUSE \<Rightarrow> {S_PAUSE, S_RUNNING, S_END}
      | S_END \<Rightarrow> {S_INIT})"

text \<open>The pin levels once the digit-select lines have been disabled, as \<open>setup()\<close> does.\<close>

definition blanked :: "pin \<Rightarrow> level" where
  "blanked = replay power_on digits_off"

text \<open>
  The relation between the relay output and the stored state that every pass keeps: the
  relay is on exactly in the states that follow a write of \<open>HIGH\<close>.
\<close>

definition relay_inv :: "machine \<Rightarrow> bool" where
  "relay_inv m = (relay m = (if state m \<in> {S_RUNNING, S_PAUSE, S_END} then HIGH else LOW))"

text \<open>
  The range of the remaining duration and of the set point that every pass keeps.
\<close>

definition time_inv :: "machine \<Rightarrow> bool" where
  "time_inv m =
     (0 \<le> sint (minutes m) \<and> sint (minutes m) \<le> 99
      \<and> 0 \<le> sint (seconds m) \<and> sint (seconds m) \<le> 59
      \<and> setPoint m \<le> TIME_MAX_SP)"

definition observe_time :: "machine \<Rightarrow> state_t \<times> int \<times> int \<times> 32 word" where
  "observe_time m = (state m, sint (minutes m), sint (seconds m), timeStart m)"

text \<open>
  The writes for one digit position in the words of the specification: disable all
  digit-select lines, push the segment pattern \<open>v\<close> to the segment lines (bit \<open>k\<close> of \<open>v\<close> on
  segment line \<open>k\<close>), then enable the digit-select line of position \<open>i\<close>.
\<close>

definition position_round :: "nat \<Rightarrow> 8 word \<Rightarrow> event list" where
  "position_round i v =
     map (\<lambda>p. DigitalWrite p DIGIT_OFF) digitPin
     @ map (\<lambda>k. DigitalWrite (segmentPin ! k) (if bit v k then SEGMENT_ON else SEGMENT_OFF))
         [0, 1, 2, 3, 4, 5, 6, 7]
     @ [DigitalWrite (digitPin ! i) DIGIT_ON]"

text \<open>
  The characters of a C string up to its terminator, the segment pattern that
  \<open>displayMessage\<close> shows for its \<open>j\<close>-th character (blank past the end), and the number of
  times the \<open>while\<close> loop of \<open>displayMessage\<close> runs its body on given clock readings.
\<close>

definition c_string :: "string \<Rightarrow> string" where
  "c_string msg = takeWhile (\<lambda>c. char_val c \<noteq> 0) msg"

definition glyph :: "flash \<Rightarrow> string \<Rightarrow> nat \<Rightarrow> 8 word" where
  "glyph fl msg j =
     (if j < length (c_string msg)
      then pgm_read_alpha fl (toupper (char_val (msg ! j)) - 65) else 0)"

definition frames :: "32 word \<Rightarrow> 16 word \<Rightarrow> 32 word list \<Rightarrow> nat" where
  "frames startTime duration ts = length (takeWhile (\<lambda>t. t - startTime < ucast duration) ts)"

section \<open>Word arithmetic used below\<close>

lemma TIME_MAX_SP_val: "TIME_MAX_SP = 1199"
  by (simp add: TIME_MAX_SP_def TIME_MAX_MINUTES_def TIME_INTERVAL_def)

lemma sint_small:
  assumes "unat (w :: 8 word) < 128"
  shows "sint w = int (unat w)"
proof -
  have "uint w < 128" using assms by transfer simp
  moreover have "- 128 \<le> uint w" by (rule order_trans [of _ 0]) simp_all
  ultimately have "signed_take_bit 7 (uint w) = uint w"
    by (intro signed_take_bit_int_eq_self) simp_all
  then show ?thesis by (simp add: sint_uint)
qed

lemma ucast_small: "unat (w :: 16 word) < 256 \<Longrightarrow> unat (ucast w :: 8 word) = unat w"
  by (simp add: unsigned_ucast_eq take_bit_nat_eq_self)

lemma total_unat: "unat (sp :: 16 word) \<le> 1199 \<Longrightarrow> unat (sp * 5) = unat sp * 5"
  using unat_mult_lem [of sp 5] by simp

section \<open>Frame lemmas for the parts of a pass\<close>

lemma emit_fields [simp]:
  "state (emit es m) = state m" "setPoint (emit es m) = setPoint m"
  "minutes (emit es m) = minutes m" "seconds (emit es m) = seconds m"
  "timeStart (emit es m) = timeStart m" "inMessage (emit es m) = inMessage m"
  "writes (emit es m) = writes m @ es"
  by (simp_all add: emit_def)

lemma shown_fields [simp]:
  "state (shown m) = state m" "setPoint (shown m) = setPoint m"
  "minutes (shown m) = minutes m" "seconds (shown m) = seconds m"
  "timeStart (shown m) = timeStart m" "inMessage (shown m) = inMessage m"
  by (simp_all add: shown_def)

lemma loop_shown:
  "loop fl inp m =
     (case state m of
        S_INIT \<Rightarrow> Some (case_INIT (shown m))
      | S_IDLE \<Rightarrow> Some (case_IDLE inp (shown m))
      | S_START \<Rightarrow> case_START inp (shown m)
      | S_RUNNING \<Rightarrow> case_RUNNING inp (shown m)
      | S_PAUSE \<Rightarrow> case_PAUSE fl inp (shown m)
      | S_END \<Rightarrow> case_END fl inp (shown m))"
  by (simp add: loop_def shown_def Let_def split: state_t.split)

section \<open>Conversion of the set point in \<open>S_INIT\<close>\<close>

lemma case_INIT_ok:
  assumes "setPoint m \<le> TIME_MAX_SP"
  shows "sint (seconds (case_INIT m)) = (uint (setPoint m) * 5) mod 60
    \<and> sint (minutes (case_INIT m)) = min 99 ((uint (setPoint m) * 5) div 60)
    \<and> state (case_INIT m) = S_IDLE
    \<and> setPoint (case_INIT m) = setPoint m"
proof -
  define n where "n = unat (setPoint m)"
  have n: "n \<le> 1199"
    using assms by (simp add: n_def TIME_MAX_SP_val word_le_nat_alt)
  have tot: "unat (setPoint m * 5) = n * 5"
    using n total_unat by (simp add: n_def)
  have s1: "unat ((setPoint m * 5) mod 60) = (n * 5) mod 60"
    by (simp add: unat_mod tot)
  have s2: "unat (ucast ((setPoint m * 5) mod 60) :: 8 word) = (n * 5) mod 60"
    using s1 by (simp add: ucast_small)
  have s3: "sint (ucast ((setPoint m * 5) mod 60) :: 8 word) = int ((n * 5) mod 60)"
    using s2 by (simp add: sint_small)
  have m0: "(n * 5) div 60 \<le> 99"
    using n by simp
  have m1: "unat ((setPoint m * 5) div 60) = (n * 5) div 60"
    by (simp add: unat_div tot)
  have m2: "unat (ucast ((setPoint m * 5) div 60) :: 8 word) = (n * 5) div 60"
    using m1 m0 by (simp add: ucast_small)
  have m3: "sint (ucast ((setPoint m * 5) div 60) :: 8 word) = int ((n * 5) div 60)"
    using m2 m0 by (simp add: sint_small)
  have u: "uint (setPoint m) = int n"
    by (simp add: n_def)
  show ?thesis
    using s3 m3 m0
    by (simp add: case_INIT_def Let_def TIME_INTERVAL_def TIME_MAX_MINUTES_def u zdiv_int zmod_int)
qed

text \<open>
  C3. For every set point from 0 to \<open>TIME_MAX_SP\<close>, a pass in \<open>S_INIT\<close> returns with
  seconds = (set point * 5) mod 60 and minutes = (set point * 5) div 60, clamped to at
  most 99, and with the state \<open>S_IDLE\<close>, whatever the inputs of the pass are.
\<close>

theorem init_conversion:
  assumes "state m = S_INIT" and "setPoint m \<le> TIME_MAX_SP"
  shows "\<exists>m'. loop fl inp m = Some m'
           \<and> sint (seconds m') = (uint (setPoint m) * 5) mod 60
           \<and> sint (minutes m') = min 99 ((uint (setPoint m) * 5) div 60)
           \<and> state m' = S_IDLE"
proof -
  have "setPoint (shown m) \<le> TIME_MAX_SP"
    using assms(2) by simp
  from case_INIT_ok [OF this] show ?thesis
    using assms(1) by (simp add: loop_shown)
qed

theorem init_conversion_witness:
  "\<exists>m'. loop fl0 (pass [] DIR_CW KS_PRESS) m_init_max = Some m'
         \<and> sint (seconds m') = 55 \<and> sint (minutes m') = 99 \<and> state m' = S_IDLE"
  using init_conversion [of m_init_max fl0 "pass [] DIR_CW KS_PRESS"]
  by (simp add: m_init_max_def TIME_MAX_SP_val)

section \<open>Rendering of a numeric value\<close>

text \<open>
  C8, as the sketch does it. Rendering the value 1205 with decimal-point digit 2 lights,
  from left to right, the patterns of the digits 1, 2, 0 and 5, the most significant
  digit at the leftmost position; the decimal-point bit is set on the second digit from
  the left (digit index 2 counted from the least significant digit) and on no other.
\<close>

theorem render_1205:
  "left_to_right (lit power_on (displayTime 1205 2))
     = [digits ! 1, digits ! 2 + DECIMAL, digits ! 0, digits ! 5]
   \<and> map (\<lambda>v. v AND 0x7f) (left_to_right (lit power_on (displayTime 1205 2)))
     = map (\<lambda>d. digits ! d) [1, 2, 0, 5]
   \<and> map (\<lambda>v. bit v 7) (left_to_right (lit power_on (displayTime 1205 2)))
     = [False, True, False, False]"
  by code_simp

text \<open>The third pattern from the left, that of the digit 0, has the decimal-point bit clear.\<close>

theorem render_1205_third_from_left:
  "left_to_right (lit power_on (displayTime 1205 2)) ! 2 = digits ! 0
   \<and> \<not> bit (left_to_right (lit power_on (displayTime 1205 2)) ! 2) 7"
  by code_simp

section \<open>The set point\<close>

lemma case_INIT_setPoint [simp]: "setPoint (case_INIT m) = setPoint m"
  by (simp add: case_INIT_def Let_def)

lemma time_counter_setPoint [simp]: "setPoint (time_counter m) = setPoint m"
  by (simp add: time_counter_def Let_def)

lemma case_START_setPoint: "case_START inp m = Some m' \<Longrightarrow> setPoint m' = setPoint m"
  by (auto simp: case_START_def split: list.splits)

lemma case_RUNNING_setPoint: "case_RUNNING inp m = Some m' \<Longrightarrow> setPoint m' = setPoint m"
  by (auto simp: case_RUNNING_def Let_def split: list.splits)

lemma case_PAUSE_setPoint: "case_PAUSE fl inp m = Some m' \<Longrightarrow> setPoint m' = setPoint m"
  by (auto simp: case_PAUSE_def Let_def split: list.splits option.splits keyResult_t.splits)

lemma case_END_setPoint: "case_END fl inp m = Some m' \<Longrightarrow> setPoint m' = setPoint m"
  by (auto simp: case_END_def Let_def split: option.splits)

lemma unat_succ_below: 
  assumes "(sp :: 16 word) < 1199" shows "unat (sp + 1) = unat sp + 1"
proof -
  have "unat sp < 1199" using assms by (simp add: word_less_nat_alt)
  then show ?thesis using unat_add_lem [of sp 1] by simp
qed

lemma unat_pred_above:
  assumes "0 < (sp :: 16 word)" shows "unat (sp - 1) = unat sp - 1"
proof -
  have "1 \<le> sp" using assms by (simp add: word_less_nat_alt word_le_nat_alt)
  then show ?thesis using unat_sub [of 1 sp] by simp
qed

lemma case_IDLE_setPoint:
  "unat (setPoint (case_IDLE inp m)) =
     (if enc inp = DIR_CW \<and> setPoint m < TIME_MAX_SP then unat (setPoint m) + 1
      else if enc inp = DIR_CCW \<and> 0 < setPoint m then unat (setPoint m) - 1
      else unat (setPoint m))"
proof -
  have "setPoint (case_IDLE inp m) =
     (if enc inp = DIR_CW \<and> setPoint m < TIME_MAX_SP then setPoint m + 1
      else if enc inp = DIR_CCW \<and> 0 < setPoint m then setPoint m - 1
      else setPoint m)"
    by (cases "enc inp") (auto simp: case_IDLE_def Let_def)
  then show ?thesis
    by (simp add: TIME_MAX_SP_val unat_succ_below unat_pred_above)
qed

lemma loop_setPoint:
  assumes "loop fl inp m = Some m'"
  shows "unat (setPoint m') =
     (if state m = S_IDLE \<and> enc inp = DIR_CW \<and> setPoint m < TIME_MAX_SP then unat (setPoint m) + 1
      else if state m = S_IDLE \<and> enc inp = DIR_CCW \<and> 0 < setPoint m then unat (setPoint m) - 1
      else unat (setPoint m))"
proof (cases "state m")
  case S_IDLE
  then have "m' = case_IDLE inp (shown m)" using assms by (simp add: loop_shown)
  then show ?thesis using S_IDLE case_IDLE_setPoint [of inp "shown m"] by simp
next
  case S_INIT
  then show ?thesis using assms by (auto simp: loop_shown)
next
  case S_START
  then show ?thesis using assms case_START_setPoint [of inp "shown m" m'] by (simp add: loop_shown)
next
  case S_RUNNING
  then show ?thesis using assms case_RUNNING_setPoint [of inp "shown m" m'] by (simp add: loop_shown)
next
  case S_PAUSE
  then show ?thesis using assms case_PAUSE_setPoint [of fl inp "shown m" m'] by (simp add: loop_shown)
next
  case S_END
  then show ?thesis using assms case_END_setPoint [of fl inp "shown m" m'] by (simp add: loop_shown)
qed

lemma loop_setPoint_bound:
  assumes "loop fl inp m = Some m'" and "setPoint m \<le> TIME_MAX_SP"
  shows "setPoint m' \<le> TIME_MAX_SP"
proof -
  have "unat (setPoint m') \<le> 1199"
    using loop_setPoint [OF assms(1)] assms(2)
    by (auto simp: TIME_MAX_SP_val word_le_nat_alt word_less_nat_alt split: if_splits)
  then show ?thesis by (simp add: TIME_MAX_SP_val word_le_nat_alt)
qed

lemma run_setPoint_bound:
  "run fl inps m = Some m' \<Longrightarrow> setPoint m \<le> TIME_MAX_SP \<Longrightarrow> setPoint m' \<le> TIME_MAX_SP"
proof (induction inps arbitrary: m)
  case Nil
  then show ?case by simp
next
  case (Cons inp inps)
  then obtain m1 where m1: "loop fl inp m = Some m1" "run fl inps m1 = Some m'"
    by (auto split: option.splits)
  from loop_setPoint_bound [OF m1(1) Cons.prems(2)] Cons.IH [OF m1(2)] show ?case by simp
qed

text \<open>
  C6. A pass changes the set point only in \<open>S_IDLE\<close>: there a clockwise step adds one when
  the set point is below \<open>TIME_MAX_SP\<close>, a counter-clockwise step takes one off when it is
  above 0, and nothing else changes it; the values are those of the natural numbers, so
  nothing wraps. Hence over any sequence of passes a set point within 0 .. \<open>TIME_MAX_SP\<close>
  stays there.
\<close>

theorem setPoint_range:
  "(loop fl inp m = Some m1 \<longrightarrow>
      unat (setPoint m1) =
        (if state m = S_IDLE \<and> enc inp = DIR_CW \<and> setPoint m < TIME_MAX_SP
         then unat (setPoint m) + 1
         else if state m = S_IDLE \<and> enc inp = DIR_CCW \<and> 0 < setPoint m
         then unat (setPoint m) - 1
         else unat (setPoint m)))
   \<and> (loop fl inp m = Some m1 \<longrightarrow> state m \<noteq> S_IDLE \<longrightarrow> setPoint m1 = setPoint m)
   \<and> (setPoint m \<le> TIME_MAX_SP \<longrightarrow> run fl inps m = Some m2 \<longrightarrow> setPoint m2 \<le> TIME_MAX_SP)"
proof (intro conjI impI)
  assume l: "loop fl inp m = Some m1"
  from loop_setPoint [OF l]
  show "unat (setPoint m1) =
        (if state m = S_IDLE \<and> enc inp = DIR_CW \<and> setPoint m < TIME_MAX_SP
         then unat (setPoint m) + 1
         else if state m = S_IDLE \<and> enc inp = DIR_CCW \<and> 0 < setPoint m
         then unat (setPoint m) - 1
         else unat (setPoint m))" .
  assume "state m \<noteq> S_IDLE"
  with loop_setPoint [OF l] show "setPoint m1 = setPoint m"
    by (simp add: word_unat_eq_iff)
next
  assume "setPoint m \<le> TIME_MAX_SP" and "run fl inps m = Some m2"
  then show "setPoint m2 \<le> TIME_MAX_SP"
    using run_setPoint_bound by blast
qed

theorem setPoint_range_witness:
  "\<exists>m1 m2. loop fl0 (pass [] DIR_CW KS_NULL) m_idle_max = Some m1
      \<and> unat (setPoint m1) = 1199
      \<and> run fl0 enc_spam m_idle_max = Some m2 \<and> setPoint m2 \<le> TIME_MAX_SP"
proof -
  obtain m1 where m1: "loop fl0 (pass [] DIR_CW KS_NULL) m_idle_max = Some m1"
    by (simp add: loop_shown m_idle_max_def)
  have "run fl0 enc_spam m_idle_max \<noteq> None"
    by code_simp
  then obtain m2 where m2: "run fl0 enc_spam m_idle_max = Some m2"
    by blast
  have le: "setPoint m_idle_max \<le> TIME_MAX_SP"
    by (simp add: m_idle_max_def TIME_MAX_SP_val)
  from setPoint_range [of fl0 "pass [] DIR_CW KS_NULL" m_idle_max m1 enc_spam m2] m1 m2 le
  have "unat (setPoint m1) = 1199" "setPoint m2 \<le> TIME_MAX_SP"
    by (simp_all add: m_idle_max_def pass_def TIME_MAX_SP_val)
  with m1 m2 show ?thesis
    by blast
qed

section \<open>The tick at 0:00\<close>

lemma time_counter_zero:
  "minutes m = 0 \<Longrightarrow> seconds m = 0 \<Longrightarrow>
   time_counter m = m\<lparr>timeStart := timeStart m + 1000, seconds := 59, state := S_END\<rparr>"
  by (simp add: time_counter_def Let_def)

lemma case_END_fields:
  "case_END fl inp m = Some m' \<Longrightarrow>
     state m' = S_INIT \<and> minutes m' = minutes m \<and> seconds m' = seconds m \<and> setPoint m' = setPoint m
     \<and> timeStart m' = timeStart m \<and> inMessage m' = inMessage m"
  by (auto simp: case_END_def Let_def split: option.splits)

text \<open>
  C10. When the tick fires in \<open>S_RUNNING\<close> with minutes = 0 and seconds = 0, the pass stores
  seconds = 59 and leaves minutes at 0; the state becomes \<open>S_END\<close> (or \<open>S_PAUSE\<close>, when the key
  press is read in the same pass). The pass in \<open>S_END\<close> keeps the stored 0:59, and the pass
  in \<open>S_INIT\<close> that follows it replaces it by the conversion of the set point.
\<close>

theorem ended_with_59:
  assumes run: "state m = S_RUNNING" and zero: "minutes m = 0" "seconds m = 0"
    and clk: "clock inp = now # rest" and due: "now - timeStart m \<ge> 1000"
  shows "\<exists>m1. loop fl inp m = Some m1
           \<and> minutes m1 = 0 \<and> seconds m1 = 59
           \<and> state m1 = (if key inp = KS_PRESS then S_PAUSE else S_END)
           \<and> (\<forall>inp2 m2. state m1 = S_END \<longrightarrow> loop fl inp2 m1 = Some m2 \<longrightarrow>
                 state m2 = S_INIT \<and> minutes m2 = 0 \<and> seconds m2 = 59
                 \<and> (\<forall>inp3. \<exists>m3. loop fl inp3 m2 = Some m3 \<and> state m3 = S_IDLE
                       \<and> seconds m3 = ucast ((setPoint m * 5) mod 60)
                       \<and> (setPoint m \<le> TIME_MAX_SP \<longrightarrow>
                            sint (seconds m3) = (uint (setPoint m) * 5) mod 60
                            \<and> sint (minutes m3) = (uint (setPoint m) * 5) div 60)))"
proof -
  define m1 where "m1 = (if key inp = KS_PRESS then (time_counter (shown m))\<lparr>state := S_PAUSE\<rparr>
                         else time_counter (shown m))"
  have l1: "loop fl inp m = Some m1"
    using run clk due by (simp add: loop_shown case_RUNNING_def m1_def Let_def)
  have tc: "time_counter (shown m)
              = (shown m)\<lparr>timeStart := timeStart m + 1000, seconds := 59, state := S_END\<rparr>"
    using zero by (simp add: time_counter_zero)
  have f1: "minutes m1 = 0" "seconds m1 = 59" "setPoint m1 = setPoint m"
    "state m1 = (if key inp = KS_PRESS then S_PAUSE else S_END)"
    using zero by (simp_all add: m1_def tc)
  have rest: "state m2 = S_INIT \<and> minutes m2 = 0 \<and> seconds m2 = 59
                 \<and> (\<forall>inp3. \<exists>m3. loop fl inp3 m2 = Some m3 \<and> state m3 = S_IDLE
                       \<and> seconds m3 = ucast ((setPoint m * 5) mod 60)
                       \<and> (setPoint m \<le> TIME_MAX_SP \<longrightarrow>
                            sint (seconds m3) = (uint (setPoint m) * 5) mod 60
                            \<and> sint (minutes m3) = (uint (setPoint m) * 5) div 60))"
    if e: "state m1 = S_END" and l2: "loop fl inp2 m1 = Some m2" for inp2 m2
  proof -
    from e l2 have "case_END fl inp2 (shown m1) = Some m2" by (simp add: loop_shown)
    from case_END_fields [OF this] f1
    have f2: "state m2 = S_INIT" "minutes m2 = 0" "seconds m2 = 59" "setPoint m2 = setPoint m"
      by simp_all
    have l3: "loop fl inp3 m2 = Some (case_INIT (shown m2))" for inp3
      using f2(1) by (simp add: loop_shown)
    have c1: "state (case_INIT (shown m2)) = S_IDLE"
      "seconds (case_INIT (shown m2)) = ucast ((setPoint m * 5) mod 60)"
      using f2(4) by (simp_all add: case_INIT_def Let_def TIME_INTERVAL_def)
    have c2: "sint (seconds (case_INIT (shown m2))) = (uint (setPoint m) * 5) mod 60
              \<and> sint (minutes (case_INIT (shown m2))) = (uint (setPoint m) * 5) div 60"
      if le: "setPoint m \<le> TIME_MAX_SP"
    proof -
      have "uint (setPoint m) \<le> 1199"
        using le by (simp add: TIME_MAX_SP_val word_le_def)
      then have "(uint (setPoint m) * 5) div 60 \<le> 99" by simp
      moreover have "setPoint (shown m2) \<le> TIME_MAX_SP" using le f2(4) by simp
      ultimately show ?thesis
        using case_INIT_ok [of "shown m2"] f2(4) by simp
    qed
    show ?thesis using f2 l3 c1 c2 by simp
  qed
  show ?thesis
    using l1 f1 rest by blast
qed

theorem ended_with_59_witness:
  "\<exists>m1 m2 m3. loop fl0 (pass [9000] DIR_NONE KS_NULL) m_zero = Some m1
      \<and> minutes m1 = 0 \<and> seconds m1 = 59 \<and> state m1 = S_END
      \<and> loop fl0 (pass [9000, 10000, 11000] DIR_NONE KS_NULL) m1 = Some m2
      \<and> state m2 = S_INIT \<and> minutes m2 = 0 \<and> seconds m2 = 59
      \<and> loop fl0 (pass [] DIR_NONE KS_NULL) m2 = Some m3
      \<and> state m3 = S_IDLE \<and> sint (seconds m3) = 5 \<and> sint (minutes m3) = 0"
proof -
  have h: "state m_zero = S_RUNNING" "minutes m_zero = 0" "seconds m_zero = 0"
    "clock (pass [9000] DIR_NONE KS_NULL) = 9000 # []" "9000 - timeStart m_zero \<ge> 1000"
    "key (pass [9000] DIR_NONE KS_NULL) = KS_NULL" "setPoint m_zero = 1"
    by (simp_all add: m_zero_def pass_def)
  from ended_with_59 [OF h(1-5), of fl0] h(6)
  obtain m1 where m1: "loop fl0 (pass [9000] DIR_NONE KS_NULL) m_zero = Some m1"
    "minutes m1 = 0" "seconds m1 = 59" "state m1 = S_END"
    and nxt: "\<And>inp2 m2. loop fl0 inp2 m1 = Some m2 \<Longrightarrow>
           state m2 = S_INIT \<and> minutes m2 = 0 \<and> seconds m2 = 59
           \<and> (\<forall>inp3. \<exists>m3. loop fl0 inp3 m2 = Some m3 \<and> state m3 = S_IDLE
                 \<and> seconds m3 = ucast ((setPoint m_zero * 5) mod 60)
                 \<and> (setPoint m_zero \<le> TIME_MAX_SP \<longrightarrow>
                      sint (seconds m3) = (uint (setPoint m_zero) * 5) mod 60
                      \<and> sint (minutes m3) = (uint (setPoint m_zero) * 5) div 60))"
    by auto
  have "displayMessage fl0 ''end'' 2000 [9000, 10000, 11000] \<noteq> None"
    by (simp add: displayMessage_def)
  then obtain m2 where m2: "loop fl0 (pass [9000, 10000, 11000] DIR_NONE KS_NULL) m1 = Some m2"
    using m1(4) by (auto simp: loop_shown case_END_def pass_def Let_def)
  from nxt [OF m2] obtain m3 where
    m3: "state m2 = S_INIT" "minutes m2 = 0" "seconds m2 = 59"
      "loop fl0 (pass [] DIR_NONE KS_NULL) m2 = Some m3" "state m3 = S_IDLE"
      "sint (seconds m3) = 5" "sint (minutes m3) = 0"
    using h(7) by (auto simp: TIME_MAX_SP_val)
  from m1 m2 m3 show ?thesis
    by blast
qed

section \<open>The tick of a second\<close>

lemma due_iff:
  assumes "e < 2 ^ 32"
  shows "((t + word_of_nat e) - t \<ge> (1000 :: 32 word)) = (1000 \<le> e)"
  using assms by (simp add: word_le_nat_alt unat_of_nat)

lemma pending:
  assumes "1000 \<le> e"
  shows "(t + word_of_nat e) - (t + 1000) = (word_of_nat (e - 1000) :: 32 word)"
  using assms by (simp add: of_nat_diff)

lemma sint_pred:
  assumes "0 \<le> sint (w :: 8 word)" "w \<noteq> 0"
  shows "sint (w - 1) = sint w - 1"
proof -
  have "sint w \<noteq> 0" using assms(2) by (simp add: signed_eq_0_iff)
  then have "0 < sint w" using assms(1) by linarith
  have "sint w < 128" using sint_lt [of w] by simp
  have "sint (w - 1) = signed_take_bit 7 (sint w - 1)"
    by (simp add: sint_word_ariths)
  also have "\<dots> = sint w - 1"
    using \<open>0 < sint w\<close> \<open>sint w < 128\<close> by (intro signed_take_bit_int_eq_self) simp_all
  finally show ?thesis .
qed

lemma time_counter_timeStart [simp]: "timeStart (time_counter m) = timeStart m + 1000"
  by (simp add: time_counter_def Let_def)

section \<open>Pause and resume\<close>

lemma case_PAUSE_frame:
  assumes "case_PAUSE fl inp m = Some m'"
  shows "minutes m' = minutes m \<and> seconds m' = seconds m \<and> setPoint m' = setPoint m
       \<and> (if key inp = KS_PRESS
           then \<exists>es now rest. displayMessage fl ''pause'' 50 (clock inp) = Some (es, now # rest)
                  \<and> m' = m\<lparr>state := S_RUNNING, timeStart := now, inMessage := False,
                           writes := writes m @ es\<rparr>
           else timeStart m' = timeStart m)"
  using assms
  by (cases "key inp")
     (auto simp: case_PAUSE_def Let_def emit_def split: list.splits option.splits)

text \<open>
  C7. A pass in \<open>S_PAUSE\<close> never changes minutes or seconds. With a key press it resumes:
  of the variables of the machine it changes the state, the message flag and \<open>timeStart\<close>,
  which becomes the clock value read after the message; without one, \<open>timeStart\<close> is
  unchanged too. Hence pausing a running timer in a pass where no second is due and
  resuming in the next pass gives a running timer with the same minutes and seconds.
\<close>

theorem pause_resume:
  "(state m = S_PAUSE \<longrightarrow> loop fl inp m = Some m' \<longrightarrow>
      minutes m' = minutes m \<and> seconds m' = seconds m
      \<and> (if key inp = KS_PRESS
          then \<exists>es now rest. displayMessage fl ''pause'' 50 (clock inp) = Some (es, now # rest)
                 \<and> m' = m\<lparr>state := S_RUNNING, timeStart := now, inMessage := False,
                          writes := writes (shown m) @ es\<rparr>
          else timeStart m' = timeStart m))
   \<and> (state r = S_RUNNING \<longrightarrow> key i1 = KS_PRESS \<longrightarrow> clock i1 = t # ts \<longrightarrow> t - timeStart r < 1000 \<longrightarrow>
        key i2 = KS_PRESS \<longrightarrow> run fl [i1, i2] r = Some r' \<longrightarrow>
        state r' = S_RUNNING \<and> minutes r' = minutes r \<and> seconds r' = seconds r)"
proof (intro conjI impI)
  assume p: "state m = S_PAUSE" and l: "loop fl inp m = Some m'"
  then have c: "case_PAUSE fl inp (shown m) = Some m'" by (simp add: loop_shown)
  from case_PAUSE_frame [OF c] show "minutes m' = minutes m" "seconds m' = seconds m"
    by simp_all
  show "if key inp = KS_PRESS
          then \<exists>es now rest. displayMessage fl ''pause'' 50 (clock inp) = Some (es, now # rest)
                 \<and> m' = m\<lparr>state := S_RUNNING, timeStart := now, inMessage := False,
                          writes := writes (shown m) @ es\<rparr>
          else timeStart m' = timeStart m"
  proof (cases "key inp = KS_PRESS")
    case True
    with case_PAUSE_frame [OF c] obtain es now rest where
      d: "displayMessage fl ''pause'' 50 (clock inp) = Some (es, now # rest)"
      and m': "m' = (shown m)\<lparr>state := S_RUNNING, timeStart := now, inMessage := False,
                           writes := writes (shown m) @ es\<rparr>"
      by auto
    have "(shown m)\<lparr>state := S_RUNNING, timeStart := now, inMessage := False,
                           writes := writes (shown m) @ es\<rparr>
          = m\<lparr>state := S_RUNNING, timeStart := now, inMessage := False,
                           writes := writes (shown m) @ es\<rparr>"
      by (simp add: shown_def emit_def)
    with d m' True show ?thesis by auto
  next
    case False
    with case_PAUSE_frame [OF c] show ?thesis by simp
  qed
next
  assume r: "state r = S_RUNNING" and k1: "key i1 = KS_PRESS" and c1: "clock i1 = t # ts"
    and nd: "t - timeStart r < 1000" and k2: "key i2 = KS_PRESS"
    and rn: "run fl [i1, i2] r = Some r'"
  define r1 where "r1 = (shown r)\<lparr>state := S_PAUSE\<rparr>"
  have l1: "loop fl i1 r = Some r1"
    using r k1 c1 nd by (simp add: loop_shown case_RUNNING_def Let_def r1_def not_le [symmetric])
  with rn have l2: "loop fl i2 r1 = Some r'" by (simp split: option.splits)
  have s1: "state r1 = S_PAUSE" by (simp add: r1_def)
  from l2 s1 have c: "case_PAUSE fl i2 (shown r1) = Some r'" by (simp add: loop_shown)
  from case_PAUSE_frame [OF c] k2
  show "state r' = S_RUNNING" "minutes r' = minutes r" "seconds r' = seconds r"
    by (auto simp: r1_def)
qed

theorem pause_resume_witness:
  "\<exists>m' r'. loop fl0 (pass [100, 120, 150, 160] DIR_NONE KS_PRESS) m_paused = Some m'
      \<and> minutes m' = 0 \<and> seconds m' = 3 \<and> state m' = S_RUNNING \<and> timeStart m' = 160
      \<and> run fl0 [pass [30] DIR_NONE KS_PRESS, pass [100, 120, 150, 160] DIR_NONE KS_PRESS]
           m_running = Some r'
      \<and> state r' = S_RUNNING \<and> minutes r' = 0 \<and> seconds r' = 3"
proof -
  let ?i2 = "pass [100, 120, 150, 160] DIR_NONE KS_PRESS"
  let ?i1 = "pass [30] DIR_NONE KS_PRESS"
  have d: "displayMessage fl0 ''pause'' 50 [100, 120, 150, 160]
             = Some (displayMessage_frame fl0 ''pause'', [160])"
    by (simp add: displayMessage_def)
  have "loop fl0 ?i2 m_paused \<noteq> None"
    by (simp add: loop_shown case_PAUSE_def m_paused_def pass_def d Let_def)
  then obtain m' where m': "loop fl0 ?i2 m_paused = Some m'"
    by blast
  have "run fl0 [?i1, ?i2] m_running \<noteq> None"
    by code_simp
  then obtain r' where r': "run fl0 [?i1, ?i2] m_running = Some r'"
    by blast
  from pause_resume [of m_paused fl0 ?i2 m' m_running ?i1 30 "[]" ?i2 r'] m' r'
  have "minutes m' = 0" "seconds m' = 3" "state m' = S_RUNNING" "timeStart m' = 160"
    "state r' = S_RUNNING" "minutes r' = 0" "seconds r' = 3"
    by (auto simp: m_paused_def m_running_def pass_def d)
  with m' r' show ?thesis
    by blast
qed

section \<open>The range of the remaining duration, and the tick of a second\<close>

lemma time_counter_fields:
  "seconds (time_counter m) = (if seconds m \<noteq> 0 then seconds m - 1 else 59)"
  "minutes (time_counter m) =
     (if seconds m \<noteq> 0 then minutes m else if minutes m \<noteq> 0 then minutes m - 1 else 0)"
  "state (time_counter m) = (if seconds m = 0 \<and> minutes m = 0 then S_END else state m)"
  by (auto simp: time_counter_def Let_def)

lemma time_inv_emit [simp]: "time_inv (emit es m) = time_inv m"
  by (simp add: time_inv_def)

lemma time_inv_shown [simp]: "time_inv (shown m) = time_inv m"
  by (simp add: time_inv_def)

lemma time_inv_case_INIT: "time_inv m \<Longrightarrow> time_inv (case_INIT m)"
proof -
  assume i: "time_inv m"
  then have le: "setPoint m \<le> TIME_MAX_SP" by (simp add: time_inv_def)
  have "0 \<le> uint (setPoint m) * 5" by simp
  then have "0 \<le> (uint (setPoint m) * 5) mod 60" "(uint (setPoint m) * 5) mod 60 \<le> 59"
    "0 \<le> (uint (setPoint m) * 5) div 60"
    by (simp_all add: pos_imp_zdiv_nonneg_iff)
  with case_INIT_ok [OF le] le show ?thesis
    by (simp add: time_inv_def)
qed

lemma time_inv_case_IDLE: "time_inv m \<Longrightarrow> time_inv (case_IDLE inp m)"
proof -
  assume i: "time_inv m"
  have f: "minutes (case_IDLE inp m) = minutes m" "seconds (case_IDLE inp m) = seconds m"
    by (cases "enc inp"; auto simp: case_IDLE_def Let_def)+
  have "unat (setPoint (case_IDLE inp m)) \<le> 1199"
    using i case_IDLE_setPoint [of inp m]
    by (auto simp: time_inv_def TIME_MAX_SP_val word_le_nat_alt word_less_nat_alt split: if_splits)
  then show ?thesis using i f
    by (simp add: time_inv_def TIME_MAX_SP_val word_le_nat_alt)
qed

lemma sint_59 [simp]: "sint (59 :: 8 word) = 59"
  by simp

lemma sint_pos_nonzero: "(w :: 8 word) \<noteq> 0 \<Longrightarrow> 0 \<le> sint w \<Longrightarrow> 0 < sint w"
  using signed_eq_0_iff [of w, where ?'a = int] by linarith

lemma time_inv_time_counter: "time_inv m \<Longrightarrow> time_inv (time_counter m)"
  by (auto simp: time_inv_def time_counter_fields sint_pred dest: sint_pos_nonzero)

lemma time_inv_state [simp]: "time_inv (m\<lparr>state := s\<rparr>) = time_inv m"
  by (simp add: time_inv_def)

lemma time_inv_loop:
  assumes l: "loop fl inp m = Some m'" and i: "time_inv m"
  shows "time_inv m'"
proof (cases "state m")
  case S_INIT
  then show ?thesis using l i time_inv_case_INIT [of "shown m"] by (auto simp: loop_shown)
next
  case S_IDLE
  then show ?thesis using l i time_inv_case_IDLE [of "shown m" inp] by (auto simp: loop_shown)
next
  case S_START
  then show ?thesis using l i
    by (auto simp: loop_shown case_START_def time_inv_def split: list.splits)
next
  case S_RUNNING
  then show ?thesis using l i time_inv_time_counter [of "shown m"]
    by (auto simp: loop_shown case_RUNNING_def Let_def split: list.splits if_splits)
next
  case S_PAUSE
  then have "case_PAUSE fl inp (shown m) = Some m'" using l by (simp add: loop_shown)
  from case_PAUSE_frame [OF this] show ?thesis using i by (simp add: time_inv_def)
next
  case S_END
  then have "case_END fl inp (shown m) = Some m'" using l by (simp add: loop_shown)
  from case_END_fields [OF this] show ?thesis using i by (simp add: time_inv_def)
qed

lemma time_inv_run: "run fl inps m = Some m' \<Longrightarrow> time_inv m \<Longrightarrow> time_inv m'"
proof (induction inps arbitrary: m)
  case Nil
  then show ?case by simp
next
  case (Cons inp inps)
  then obtain m1 where m1: "loop fl inp m = Some m1" "run fl inps m1 = Some m'"
    by (auto split: option.splits)
  from Cons.IH [OF m1(2) time_inv_loop [OF m1(1) Cons.prems(2)]] show ?case .
qed

lemma time_inv_setup: "setup_board fl clk = Some m0 \<Longrightarrow> time_inv m0"
  by (auto simp: setup_board_def Let_def time_inv_def TIME_MAX_SP_val split: option.splits)

text \<open>
  C2, as the sketch does it. After any number of passes from power-on, minutes is within
  0 .. 99 and seconds within 0 .. 59. Let the clock then read \<open>e\<close> milliseconds (\<open>e\<close> below
  \<open>2 ^ 32\<close>) after the last decrement instant \<open>timeStart\<close>, in 32-bit arithmetic, so also
  across the rollover of the counter. A pass in \<open>S_RUNNING\<close> fires the tick exactly when \<open>e\<close>
  is at least 1000. When it fires, \<open>timeStart\<close> advances by exactly 1000, so that the
  \<open>e - 1000\<close> milliseconds beyond the second stay pending, and a remaining duration other
  than 0:00 goes down by exactly one second: seconds by one with minutes unchanged, or,
  when seconds is 0, minutes by one with seconds set to 59. At 0:00 the tick stores 0:59
  instead. When it does not fire, \<open>timeStart\<close>, minutes and seconds are unchanged.
\<close>

theorem second_tick:
  assumes boot: "setup_board fl clk = Some m0" and rn: "run fl inps m0 = Some m"
    and run: "state m = S_RUNNING"
    and clk: "clock inp = (timeStart m + word_of_nat e) # rest" and e: "e < 2 ^ 32"
  shows "\<exists>m'. loop fl inp m = Some m'
           \<and> 0 \<le> sint (minutes m) \<and> sint (minutes m) \<le> 99
           \<and> 0 \<le> sint (seconds m) \<and> sint (seconds m) \<le> 59
           \<and> (if 1000 \<le> e
              then timeStart m' = timeStart m + 1000
                 \<and> (timeStart m + word_of_nat e) - timeStart m' = word_of_nat (e - 1000)
                 \<and> (if seconds m \<noteq> 0
                    then sint (seconds m') = sint (seconds m) - 1 \<and> minutes m' = minutes m
                    else if minutes m \<noteq> 0
                    then sint (seconds m') = 59 \<and> sint (minutes m') = sint (minutes m) - 1
                    else sint (seconds m') = 59 \<and> sint (minutes m') = 0)
                 \<and> (if minutes m = 0 \<and> seconds m = 0 then remaining m' = 59
                    else remaining m' = remaining m - 1)
              else timeStart m' = timeStart m \<and> minutes m' = minutes m
                 \<and> seconds m' = seconds m)"
proof -
  let ?now = "timeStart m + word_of_nat e"
  have inv: "time_inv m"
    using time_inv_run [OF rn time_inv_setup [OF boot]] .
  then have rng: "0 \<le> sint (minutes m)" "sint (minutes m) \<le> 99"
    "0 \<le> sint (seconds m)" "sint (seconds m) \<le> 59"
    by (simp_all add: time_inv_def)
  define m1 where "m1 = (if ?now - timeStart m \<ge> 1000 then time_counter (shown m) else shown m)"
  define m' where "m' = (if key inp = KS_PRESS then m1\<lparr>state := S_PAUSE\<rparr> else m1)"
  have l: "loop fl inp m = Some m'"
    using run clk by (simp add: loop_shown case_RUNNING_def m1_def m'_def Let_def)
  have d: "(?now - timeStart m \<ge> 1000) = (1000 \<le> e)"
    using e by (rule due_iff)
  show ?thesis
  proof (cases "1000 \<le> e")
    case True
    then have m1: "m1 = time_counter (shown m)" using d by (simp add: m1_def)
    have ms: "minutes m' = minutes m1" "seconds m' = seconds m1"
      by (simp_all add: m'_def)
    have ts: "timeStart m' = timeStart m + 1000" by (simp add: m'_def m1)
    have pend: "?now - timeStart m' = word_of_nat (e - 1000)"
      using True by (simp add: ts pending)
    have f: "if seconds m \<noteq> 0
                    then sint (seconds m') = sint (seconds m) - 1 \<and> minutes m' = minutes m
                    else if minutes m \<noteq> 0
                    then sint (seconds m') = 59 \<and> sint (minutes m') = sint (minutes m) - 1
                    else sint (seconds m') = 59 \<and> sint (minutes m') = 0"
      using rng by (simp add: ms m1 time_counter_fields sint_pred)
    have r: "if minutes m = 0 \<and> seconds m = 0 then remaining m' = 59
                    else remaining m' = remaining m - 1"
      using f by (auto simp: remaining_def split: if_splits)
    show ?thesis using l True ts pend f r rng by simp
  next
    case False
    then have m1: "m1 = shown m" using d by (simp add: m1_def)
    show ?thesis using l False rng by (simp add: m'_def m1)
  qed
qed

theorem second_tick_witness:
  "\<exists>m0 m m'. setup_board fl0 [0, 1000, 2000] = Some m0
      \<and> run fl0 (take 4 arm_5s @ [pass [4294967000] DIR_NONE KS_NULL]) m0 = Some m
      \<and> state m = S_RUNNING \<and> timeStart m = 4294967000
      \<and> sint (minutes m) = 0 \<and> sint (seconds m) = 5
      \<and> loop fl0 (pass [1204] DIR_NONE KS_NULL) m = Some m'
      \<and> timeStart m' = 704 \<and> 1204 - timeStart m' = 500
      \<and> sint (seconds m') = 4 \<and> minutes m' = minutes m \<and> remaining m' = 4"
proof -
  have ev: "map_option observe_time (run_from_boot [0, 1000, 2000]
               (take 4 arm_5s @ [pass [4294967000] DIR_NONE KS_NULL]))
             = Some (S_RUNNING, 0, 5, 4294967000)"
    by code_simp
  then obtain m0 m where m0: "setup_board fl0 [0, 1000, 2000] = Some m0"
    and m: "run fl0 (take 4 arm_5s @ [pass [4294967000] DIR_NONE KS_NULL]) m0 = Some m"
    and st: "state m = S_RUNNING" "timeStart m = 4294967000"
      "sint (minutes m) = 0" "sint (seconds m) = 5"
    by (auto simp: run_from_boot_def observe_time_def split: option.splits)
  have nz: "seconds m \<noteq> 0"
    using st(4) by auto
  have w: "(4294967000 :: 32 word) + 1000 = 704" "(1204 :: 32 word) - 704 = 500"
    "(4294967000 :: 32 word) + 1500 = 1204" "(4294968000 :: 32 word) = 704"
    by simp_all
  have c: "clock (pass [1204] DIR_NONE KS_NULL) = (timeStart m + word_of_nat 1500) # []"
    by (simp add: pass_def st w)
  from second_tick [OF m0 m st(1) c] nz obtain m' where
    l: "loop fl0 (pass [1204] DIR_NONE KS_NULL) m = Some m'"
    and ts: "timeStart m' = timeStart m + 1000"
    and f: "sint (seconds m') = sint (seconds m) - 1" "minutes m' = minutes m"
    and r: "remaining m' = remaining m - 1"
    by auto
  have "timeStart m' = 704" "1204 - timeStart m' = 500" "sint (seconds m') = 4"
    "remaining m' = 4"
    using ts f r st by (simp_all add: w remaining_def)
  with m0 m st l f(2) show ?thesis
    by blast
qed

text \<open>
  The timer of the simulated run is at 0:00 after five ticks; the sixth tick does not take
  a second off but stores 0:59.
\<close>

theorem tick_at_zero_stores_59:
  "map_option observe_time (run_from_boot [0, 1000, 2000]
        (arm_5s @ polls [4000, 5000, 6000, 7000, 8000]))
     = Some (S_RUNNING, 0, 0, 8000)
   \<and> map_option observe_time (run_from_boot [0, 1000, 2000]
        (arm_5s @ polls [4000, 5000, 6000, 7000, 8000, 9000]))
     = Some (S_END, 0, 59, 9000)"
  by code_simp

section \<open>Writes to the relay output\<close>

lemma upt4: "[0..<4] = [0, 1, 2, 3]"
  by (simp add: upt_rec)

lemma upt8: "[0..<8] = [0, 1, 2, 3, 4, 5, 6, 7]"
  by (simp add: upt_rec)

lemma len_digitPin: "length digitPin = 4"
  by (simp add: digitPin_def)

lemma relay_writes_Nil [simp]: "relay_writes [] = []"
  by (simp add: relay_writes_def)

lemma relay_writes_append [simp]: "relay_writes (es @ fs) = relay_writes es @ relay_writes fs"
  by (simp add: relay_writes_def)

lemma relay_writes_digits_off [simp]: "relay_writes digits_off = []"
  by (simp add: relay_writes_def digits_off_def digitPin_def OUTPUT_PIN_def upt4)

lemma updateSegments_pins: "map pin_of (updateSegments v) = segmentPin"
  by (simp add: updateSegments_def segmentPin_def upt8)

lemma relay_writes_updateSegments [simp]: "relay_writes (updateSegments v) = []"
proof -
  have "filter (\<lambda>e. pin_of e = OUTPUT_PIN) (updateSegments v) = []"
    unfolding filter_empty_conv
  proof
    fix e assume "e \<in> set (updateSegments v)"
    then have "pin_of e \<in> set (map pin_of (updateSegments v))" by simp
    then show "\<not> pin_of e = OUTPUT_PIN"
      unfolding updateSegments_pins by (auto simp: segmentPin_def OUTPUT_PIN_def)
  qed
  then show ?thesis by (simp add: relay_writes_def)
qed

lemma relay_writes_enable [simp]:
  "i < 4 \<Longrightarrow> relay_writes [DigitalWrite (digitPin ! i) DIGIT_ON] = []"
  by (auto simp: relay_writes_def digitPin_def OUTPUT_PIN_def nth_Cons' )

lemma displayTime_fold_relay:
  "\<forall>i\<in>set is. i < 4 \<Longrightarrow>
   relay_writes (snd (foldl (displayTime_step d) (v, es) is)) = relay_writes es"
  by (induction "is" arbitrary: v es) (simp_all add: Let_def)

lemma relay_writes_displayTime [simp]: "relay_writes (displayTime v d) = []"
  using displayTime_fold_relay [of "[0..<4]" d v "[]"]
  by (simp add: displayTime_def len_digitPin)

lemma displayMessage_fold_relay:
  "\<forall>i\<in>set is. i < 4 \<Longrightarrow>
   relay_writes (snd (foldl (displayMessage_step fl) (p, es) is)) = relay_writes es"
  by (induction "is" arbitrary: p es) (simp_all add: Let_def split: prod.splits)

lemma relay_writes_frame [simp]: "relay_writes (displayMessage_frame fl msg) = []"
  using displayMessage_fold_relay [of "rev [0..<4]" fl msg "[]"]
  by (simp add: displayMessage_frame_def len_digitPin)

lemma relay_writes_while:
  "displayMessage_while fl msg st dur clk = Some (es, rest) \<Longrightarrow> relay_writes es = []"
  by (induction clk arbitrary: es rest) (auto split: if_splits option.splits)

lemma relay_writes_displayMessage:
  "displayMessage fl msg dur clk = Some (es, rest) \<Longrightarrow> relay_writes es = []"
  by (auto simp: displayMessage_def relay_writes_while split: list.splits)

lemma replay_snoc: "replay pins (es @ [e]) = digitalWrite (replay pins es) e"
  by (simp add: replay_def)

lemma replay_relay:
  "replay pins es OUTPUT_PIN =
     (if relay_writes es = [] then pins OUTPUT_PIN
      else if last (relay_writes es) = LOW then LOW else HIGH)"
proof (induction es rule: rev_induct)
  case Nil
  then show ?case by (simp add: replay_def)
next
  case (snoc e es)
  then show ?case
    by (auto simp: replay_snoc relay_writes_def digitalWrite_def LOW_def HIGH_def)
qed

lemma relay_last:
  "relay m = (if relay_writes (writes m) = [] then LOW
              else if last (relay_writes (writes m)) = LOW then LOW else HIGH)"
  by (simp add: relay_def replay_relay power_on_def)

lemma relay_writes_shown [simp]: "relay_writes (writes (shown m)) = relay_writes (writes m)"
  by (simp add: shown_def)

lemma writes_shown_prefix: "\<exists>ds. writes (shown m) = writes m @ ds \<and> relay_writes ds = []"
proof (cases "inMessage m")
  case True
  then have "writes (shown m) = writes m @ [] \<and> relay_writes [] = []" by (simp add: shown_def)
  then show ?thesis by blast
next
  case False
  then have "writes (shown m) = writes m @ displayTime (time_value m) 2
             \<and> relay_writes (displayTime (time_value m) 2) = []" by (simp add: shown_def)
  then show ?thesis by blast
qed

lemma time_counter_state: "state m = S_RUNNING \<Longrightarrow> state (time_counter m) \<in> {S_RUNNING, S_END}"
  by (simp add: time_counter_def Let_def)

lemma time_counter_writes [simp]: "writes (time_counter m) = writes m"
  by (simp add: time_counter_def Let_def)

lemma case_INIT_step:
  "writes (case_INIT m) = writes m \<and> state (case_INIT m) = S_IDLE"
  by (simp add: case_INIT_def Let_def)

lemma case_IDLE_step:
  "writes (case_IDLE inp m) = writes m \<and> (state m = S_IDLE \<longrightarrow> state (case_IDLE inp m) \<in> {S_IDLE, S_INIT, S_START})"
  by (cases "enc inp") (auto simp: case_IDLE_def Let_def)

lemma case_START_step:
  "case_START inp m = Some m' \<Longrightarrow> writes m' = writes m @ [DigitalWrite OUTPUT_PIN HIGH] \<and> state m' = S_RUNNING"
  by (auto simp: case_START_def split: list.splits)

lemma case_RUNNING_step:
  "case_RUNNING inp m = Some m' \<Longrightarrow> state m = S_RUNNING \<Longrightarrow>
     writes m' = writes m \<and> state m' \<in> {S_RUNNING, S_PAUSE, S_END}"
  using time_counter_state [of m]
  by (auto simp: case_RUNNING_def Let_def split: list.splits if_splits)

lemma case_PAUSE_step:
  "case_PAUSE fl inp m = Some m' \<Longrightarrow> state m = S_PAUSE \<Longrightarrow>
     (\<exists>es. writes m' = writes m @ es \<and> relay_writes es = []) \<and> state m' \<in> {S_PAUSE, S_RUNNING, S_END}"
  by (cases "key inp")
     (auto simp: case_PAUSE_def Let_def relay_writes_displayMessage split: option.splits list.splits)

lemma case_END_step:
  "case_END fl inp m = Some m' \<Longrightarrow>
     (\<exists>es. writes m' = writes m @ DigitalWrite OUTPUT_PIN LOW # es \<and> relay_writes es = []) \<and> state m' = S_INIT"
  by (auto simp: case_END_def Let_def relay_writes_displayMessage split: option.splits)

lemma relay_writes_single [simp]: "relay_writes [DigitalWrite OUTPUT_PIN v] = [v]"
  by (simp add: relay_writes_def)

lemma relay_writes_Cons_out [simp]: "relay_writes (DigitalWrite OUTPUT_PIN v # es) = v # relay_writes es"
  by (simp add: relay_writes_def)

lemma loop_step:
  assumes "loop fl inp m = Some m'"
  shows "(\<exists>es. writes m' = writes m @ es \<and> relay_writes es = relay_step (state m))
       \<and> state m' \<in> next_states (state m)"
proof -
  obtain ds where ds: "writes (shown m) = writes m @ ds" "relay_writes ds = []"
    using writes_shown_prefix by blast
  show ?thesis
  proof (cases "state m")
    case S_INIT
    then show ?thesis using assms ds case_INIT_step [of "shown m"]
      by (auto simp: loop_shown relay_step_def next_states_def)
  next
    case S_IDLE
    then show ?thesis using assms ds case_IDLE_step [of inp "shown m"]
      by (auto simp: loop_shown relay_step_def next_states_def)
  next
    case S_START
    then show ?thesis using assms ds case_START_step [of inp "shown m" m']
      by (auto simp: loop_shown relay_step_def next_states_def)
  next
    case S_RUNNING
    then show ?thesis using assms ds case_RUNNING_step [of inp "shown m" m']
      by (auto simp: loop_shown relay_step_def next_states_def)
  next
    case S_PAUSE
    then have "case_PAUSE fl inp (shown m) = Some m'" using assms by (simp add: loop_shown)
    from case_PAUSE_step [OF this] S_PAUSE obtain es where
      "writes m' = writes (shown m) @ es" "relay_writes es = []" "state m' \<in> {S_PAUSE, S_RUNNING, S_END}"
      by auto
    then show ?thesis using S_PAUSE ds
      by (auto simp: relay_step_def next_states_def)
  next
    case S_END
    then have "case_END fl inp (shown m) = Some m'" using assms by (simp add: loop_shown)
    from case_END_step [OF this] obtain es where
      "writes m' = writes (shown m) @ DigitalWrite OUTPUT_PIN LOW # es" "relay_writes es = []" "state m' = S_INIT"
      by auto
    then show ?thesis using S_END ds
      by (auto simp: relay_step_def next_states_def)
  qed
qed

lemma LOW_neq_HIGH [simp]: "LOW \<noteq> HIGH" "HIGH \<noteq> LOW"
  by (simp_all add: LOW_def HIGH_def)

lemma relay_after_pass:
  assumes l: "loop fl inp m = Some m'" and i: "relay_inv m"
  shows "relay m' = (if state m \<in> {S_START, S_RUNNING, S_PAUSE} then HIGH else LOW)"
proof -
  from loop_step [OF l] obtain es where
    w: "writes m' = writes m @ es" and r: "relay_writes es = relay_step (state m)"
    by blast
  show ?thesis
    using i r by (cases "state m") (auto simp: relay_last w relay_step_def relay_inv_def split: if_splits)
qed

lemma relay_inv_loop:
  assumes l: "loop fl inp m = Some m'" and i: "relay_inv m"
  shows "relay_inv m'"
proof -
  from loop_step [OF l] have n: "state m' \<in> next_states (state m)"
    by blast
  show ?thesis
    using relay_after_pass [OF l i] n
    by (cases "state m") (auto simp: relay_inv_def next_states_def)
qed

lemma relay_inv_run:
  "run fl inps m = Some m' \<Longrightarrow> relay_inv m \<Longrightarrow> relay_inv m'"
proof (induction inps arbitrary: m)
  case Nil
  then show ?case by simp
next
  case (Cons inp inps)
  then obtain m1 where m1: "loop fl inp m = Some m1" "run fl inps m1 = Some m'"
    by (auto split: option.splits)
  from Cons.IH [OF m1(2) relay_inv_loop [OF m1(1) Cons.prems(2)]] show ?case .
qed

lemma relay_writes_map_digit:
  "relay_writes (map (\<lambda>i. DigitalWrite (digitPin ! i) v) [0..<length digitPin]) = []"
  by (simp add: relay_writes_def digitPin_def OUTPUT_PIN_def upt4)

lemma relay_writes_map_segment:
  "relay_writes (map (\<lambda>i. DigitalWrite (segmentPin ! i) v) [0..<length segmentPin]) = []"
  by (simp add: relay_writes_def segmentPin_def OUTPUT_PIN_def upt8)

lemma relay_inv_setup:
  assumes "setup_board fl clk = Some m0"
  shows "relay_inv m0"
proof -
  from assms obtain es3 rest where
    d: "displayMessage fl ''helo'' 2000 clk = Some (es3, rest)"
    and m0: "m0 = \<lparr>state = S_INIT, setPoint = 0, minutes = 0, seconds = 0, timeStart = 0,
                   inMessage = False,
                   writes = map (\<lambda>i. DigitalWrite (digitPin ! i) DIGIT_OFF) [0..<length digitPin]
                     @ map (\<lambda>i. DigitalWrite (segmentPin ! i) SEGMENT_OFF) [0..<length segmentPin]
                     @ es3\<rparr>"
    by (auto simp: setup_board_def Let_def split: option.splits)
  have "relay_writes (writes m0) = []"
    using relay_writes_displayMessage [OF d]
    by (simp add: m0 relay_writes_map_digit relay_writes_map_segment)
  then show ?thesis
    by (simp add: relay_inv_def relay_last m0)
qed

lemma new_writes_app: "writes m' = writes m @ es \<Longrightarrow> new_writes m m' = es"
  by (simp add: new_writes_def)

text \<open>
  C1, as the sketch does it. The relay output is written by the handlers of two states
  only: \<open>S_START\<close> writes \<open>HIGH\<close> and \<open>S_END\<close> writes \<open>LOW\<close>, each in a pass that changes the
  state. So after every pass the relay is on exactly when the state that the pass handled
  was \<open>S_START\<close>, \<open>S_RUNNING\<close> or \<open>S_PAUSE\<close>; with respect to the stored state, which is
  already the next one, the relay is on exactly in \<open>S_RUNNING\<close>, \<open>S_PAUSE\<close> and \<open>S_END\<close>, and
  off in \<open>S_INIT\<close>, \<open>S_IDLE\<close> and \<open>S_START\<close>. This holds after any number of passes from
  power-on.
\<close>

theorem relay_follows_handler:
  assumes boot: "setup_board fl clk = Some m0" and rn: "run fl inps m0 = Some m"
  shows "(relay m = HIGH) = (state m \<in> {S_RUNNING, S_PAUSE, S_END})
       \<and> (relay m = LOW) = (state m \<in> {S_INIT, S_IDLE, S_START})
       \<and> (\<forall>inp m'. loop fl inp m = Some m' \<longrightarrow>
             relay_writes (new_writes m m')
               = (case state m of S_START \<Rightarrow> [HIGH] | S_END \<Rightarrow> [LOW] | _ \<Rightarrow> [])
           \<and> (relay_writes (new_writes m m') \<noteq> [] \<longrightarrow> state m' \<noteq> state m)
           \<and> (relay m' = HIGH) = (state m \<in> {S_START, S_RUNNING, S_PAUSE}))"
proof -
  have i: "relay_inv m"
    using relay_inv_run [OF rn relay_inv_setup [OF boot]] .
  have a: "(relay m = HIGH) = (state m \<in> {S_RUNNING, S_PAUSE, S_END})"
    using i by (simp add: relay_inv_def)
  have b: "(relay m = LOW) = (state m \<in> {S_INIT, S_IDLE, S_START})"
    using i by (cases "state m") (simp_all add: relay_inv_def)
  have c: "relay_writes (new_writes m m')
               = (case state m of S_START \<Rightarrow> [HIGH] | S_END \<Rightarrow> [LOW] | _ \<Rightarrow> [])
           \<and> (relay_writes (new_writes m m') \<noteq> [] \<longrightarrow> state m' \<noteq> state m)
           \<and> (relay m' = HIGH) = (state m \<in> {S_START, S_RUNNING, S_PAUSE})"
    if l: "loop fl inp m = Some m'" for inp m'
  proof -
    from loop_step [OF l] obtain es where
      w: "writes m' = writes m @ es" and r: "relay_writes es = relay_step (state m)"
      and n: "state m' \<in> next_states (state m)"
      by blast
    have nw: "new_writes m m' = es" using w by (rule new_writes_app)
    have c1: "relay_writes (new_writes m m')
               = (case state m of S_START \<Rightarrow> [HIGH] | S_END \<Rightarrow> [LOW] | _ \<Rightarrow> [])"
      by (simp add: nw r relay_step_def)
    have c2: "relay_writes (new_writes m m') \<noteq> [] \<longrightarrow> state m' \<noteq> state m"
      using n by (cases "state m") (auto simp: nw r relay_step_def next_states_def)
    have c3: "(relay m' = HIGH) = (state m \<in> {S_START, S_RUNNING, S_PAUSE})"
      using relay_after_pass [OF l i] by simp
    from c1 c2 c3 show ?thesis by blast
  qed
  from a b c show ?thesis by blast
qed

section \<open>The shape of the display writes\<close>

lemma len_segmentPin: "length segmentPin = 8"
  by (simp add: segmentPin_def)

lemma digits_off_map: "digits_off = map (\<lambda>p. DigitalWrite p DIGIT_OFF) digitPin"
  by (simp add: digits_off_def digitPin_def upt4)

lemma length_updateSegments: "length (updateSegments v) = 8"
  using arg_cong [OF updateSegments_pins [of v], of length] by (simp add: len_segmentPin)

lemma digitPin_nth_mem: "i < 4 \<Longrightarrow> digitPin ! i \<in> set digitPin"
  by (simp add: len_digitPin)

lemma is_round_model:
  assumes "i < 4"
  shows "is_round (digits_off @ updateSegments v @ [DigitalWrite (digitPin ! i) DIGIT_ON])"
proof -
  have l: "length digits_off = 4" by (simp add: digits_off_map len_digitPin)
  show ?thesis
    unfolding is_round_def
    using assms l digitPin_nth_mem [OF assms]
    by (simp add: length_updateSegments updateSegments_pins nth_append digits_off_map [symmetric])
qed

lemma displayTime_fold_rounds:
  "\<forall>i\<in>set is. i < 4 \<Longrightarrow>
   \<exists>rs. snd (foldl (displayTime_step d) (v, es) is) = es @ concat rs
        \<and> length rs = length is \<and> list_all is_round rs"
proof (induction "is" arbitrary: v es)
  case Nil
  have "es = es @ concat [] \<and> length ([] :: event list list) = 0 \<and> list_all is_round []" by simp
  then show ?case by (metis foldl_Nil snd_conv list.size(3))
next
  case (Cons i "is")
  define r where "r = digits_off
      @ updateSegments (digits ! unat (ucast (v mod 10) :: 8 word) + (if d = of_nat i then DECIMAL else 0))
      @ [DigitalWrite (digitPin ! i) DIGIT_ON]"
  have st: "displayTime_step d (v, es) i = (v div 10, es @ r)"
    by (simp add: r_def Let_def)
  have rr: "is_round r" unfolding r_def using Cons.prems by (intro is_round_model) simp
  from Cons.IH [of "v div 10" "es @ r"] Cons.prems obtain rs where
    rs: "snd (foldl (displayTime_step d) (v div 10, es @ r) is) = (es @ r) @ concat rs"
        "length rs = length is" "list_all is_round rs"
    by auto
  have "snd (foldl (displayTime_step d) (v, es) (i # is))
          = snd (foldl (displayTime_step d) (v div 10, es @ r) is)"
    by (simp only: foldl_Cons st)
  then have "snd (foldl (displayTime_step d) (v, es) (i # is)) = es @ concat (r # rs)
        \<and> length (r # rs) = length (i # is) \<and> list_all is_round (r # rs)"
    using rs rr by simp
  then show ?case by blast
qed

lemma displayTime_rounds:
  "\<exists>rs. displayTime val dec = concat rs \<and> length rs = 4 \<and> list_all is_round rs"
  using displayTime_fold_rounds [of "[0..<4]" dec val "[]"]
  by (simp add: displayTime_def len_digitPin)

lemma displayMessage_fold_rounds:
  "\<forall>i\<in>set is. i < 4 \<Longrightarrow>
   \<exists>rs. snd (foldl (displayMessage_step fl) (p, es) is) = es @ concat rs
        \<and> length rs = length is \<and> list_all is_round rs"
proof (induction "is" arbitrary: p es)
  case Nil
  have "es = es @ concat [] \<and> length ([] :: event list list) = 0 \<and> list_all is_round []" by simp
  then show ?case by (metis foldl_Nil snd_conv list.size(3))
next
  case (Cons i "is")
  obtain v p' where vp: "(case p of [] \<Rightarrow> (0, p)
                     | c # cs \<Rightarrow> if char_val c \<noteq> 0
                                then (pgm_read_alpha fl (toupper (char_val c) - 65), cs)
                                else (0, p)) = (v, p')"
    by (cases "(case p of [] \<Rightarrow> (0 :: 8 word, p)
                     | c # cs \<Rightarrow> if char_val c \<noteq> 0
                                then (pgm_read_alpha fl (toupper (char_val c) - 65), cs)
                                else (0, p))") 
  define r where "r = digits_off @ updateSegments v @ [DigitalWrite (digitPin ! i) DIGIT_ON]"
  have st: "displayMessage_step fl (p, es) i = (p', es @ r)"
    by (simp add: r_def vp)
  have rr: "is_round r" unfolding r_def using Cons.prems by (intro is_round_model) simp
  from Cons.IH [of p' "es @ r"] Cons.prems obtain rs where
    rs: "snd (foldl (displayMessage_step fl) (p', es @ r) is) = (es @ r) @ concat rs"
        "length rs = length is" "list_all is_round rs"
    by auto
  have "snd (foldl (displayMessage_step fl) (p, es) (i # is))
          = snd (foldl (displayMessage_step fl) (p', es @ r) is)"
    by (simp only: foldl_Cons st)
  then have "snd (foldl (displayMessage_step fl) (p, es) (i # is)) = es @ concat (r # rs)
        \<and> length (r # rs) = length (i # is) \<and> list_all is_round (r # rs)"
    using rs rr by simp
  then show ?case by blast
qed

lemma frame_rounds:
  "\<exists>rs. displayMessage_frame fl msg = concat rs \<and> length rs = 4 \<and> list_all is_round rs"
  using displayMessage_fold_rounds [of "rev [0..<4]" fl msg "[]"]
  by (simp add: displayMessage_frame_def len_digitPin)

lemma while_rounds:
  "displayMessage_while fl msg st dur clk = Some (es, rest) \<Longrightarrow>
   \<exists>rs. es = concat rs \<and> 4 dvd length rs \<and> list_all is_round rs"
proof (induction clk arbitrary: es rest)
  case Nil
  then show ?case by simp
next
  case (Cons t ts)
  show ?case
  proof (cases "t - st < ucast dur")
    case True
    with Cons.prems obtain es' where
      w: "displayMessage_while fl msg st dur ts = Some (es', rest)"
      and es: "es = displayMessage_frame fl msg @ es'"
      by (auto split: option.splits)
    from Cons.IH [OF w] obtain rs where rs: "es' = concat rs" "4 dvd length rs" "list_all is_round rs"
      by blast
    from frame_rounds [of fl msg] obtain fs where
      fs: "displayMessage_frame fl msg = concat fs" "length fs = 4" "list_all is_round fs"
      by blast
    have "es = concat (fs @ rs) \<and> 4 dvd length (fs @ rs) \<and> list_all is_round (fs @ rs)"
      using es rs fs by simp
    then show ?thesis by blast
  next
    case False
    with Cons.prems have "es = concat [] \<and> 4 dvd length ([] :: event list list) \<and> list_all is_round []"
      by simp
    then show ?thesis by blast
  qed
qed

lemma displayMessage_rounds:
  "displayMessage fl msg dur clk = Some (es, rest) \<Longrightarrow>
   \<exists>rs. es = concat rs \<and> 4 dvd length rs \<and> list_all is_round rs"
  by (auto simp: displayMessage_def split: list.splits intro: while_rounds)

lemma replay_Nil [simp]: "replay pins [] = pins"
  by (simp add: replay_def)

lemma replay_Cons [simp]: "replay pins (e # es) = replay (digitalWrite pins e) es"
  by (simp add: replay_def)

lemma replay_append: "replay pins (es @ fs) = replay (replay pins es) fs"
  by (simp add: replay_def)

lemma multiplex_ok_append:
  "multiplex_ok pins (es @ fs) = (multiplex_ok pins es \<and> multiplex_ok (replay pins es) fs)"
  by (induction es arbitrary: pins) auto

lemma is_round_split:
  assumes "is_round r"
  shows "\<exists>b c. r = map (\<lambda>p. DigitalWrite p DIGIT_OFF) digitPin @ b @ [c]
           \<and> map pin_of b = segmentPin \<and> pin_of c \<in> set digitPin \<and> level_of c = DIGIT_ON"
proof -
  from assms have len: "length r = 13"
    and a: "take 4 r = map (\<lambda>p. DigitalWrite p DIGIT_OFF) digitPin"
    and b: "map pin_of (take 8 (drop 4 r)) = segmentPin"
    and c: "pin_of (r ! 12) \<in> set digitPin" "level_of (r ! 12) = DIGIT_ON"
    by (simp_all add: is_round_def)
  have "drop 12 r = [r ! 12]"
    using len Cons_nth_drop_Suc [of 12 r] by simp
  then have "drop 4 r = take 8 (drop 4 r) @ [r ! 12]"
    using append_take_drop_id [of 8 "drop 4 r"] by simp
  then have "r = take 4 r @ take 8 (drop 4 r) @ [r ! 12]"
    using append_take_drop_id [of 4 r] by simp
  with a b c show ?thesis by metis
qed

lemma off_writes_ok:
  assumes "length (enabled_digits pins) \<le> 1"
  shows "multiplex_ok pins (map (\<lambda>p. DigitalWrite p DIGIT_OFF) digitPin)
       \<and> enabled_digits (replay pins (map (\<lambda>p. DigitalWrite p DIGIT_OFF) digitPin)) = []"
  using assms
  by (auto simp: enabled_digits_def digitPin_def segmentPin_def digitalWrite_def
       DIGIT_ON_def DIGIT_OFF_def LOW_def HIGH_def split: if_splits)

lemma segment_write_keeps:
  "pin_of e \<in> set segmentPin \<Longrightarrow> enabled_digits (digitalWrite pins e) = enabled_digits pins"
  by (auto simp: enabled_digits_def digitPin_def segmentPin_def digitalWrite_def)

lemma segment_writes_ok:
  "set (map pin_of b) \<subseteq> set segmentPin \<Longrightarrow> enabled_digits pins = [] \<Longrightarrow>
   multiplex_ok pins b \<and> enabled_digits (replay pins b) = []"
  by (induction b arbitrary: pins) (simp_all add: segment_write_keeps)

lemma enable_write_ok:
  assumes "pin_of c \<in> set digitPin" "level_of c = DIGIT_ON" "enabled_digits pins = []"
  shows "multiplex_ok pins [c] \<and> length (enabled_digits (replay pins [c])) \<le> 1"
  using assms
  by (auto simp: enabled_digits_def digitPin_def segmentPin_def digitalWrite_def
       DIGIT_ON_def LOW_def HIGH_def filter_empty_conv split: if_splits)

lemma round_ok:
  assumes "is_round r" "length (enabled_digits pins) \<le> 1"
  shows "multiplex_ok pins r \<and> length (enabled_digits (replay pins r)) \<le> 1"
proof -
  let ?a = "map (\<lambda>p. DigitalWrite p DIGIT_OFF) digitPin"
  from is_round_split [OF assms(1)] obtain b c where
    r: "r = ?a @ b @ [c]" and b: "map pin_of b = segmentPin"
    and c: "pin_of c \<in> set digitPin" "level_of c = DIGIT_ON"
    by blast
  from off_writes_ok [OF assms(2)] have
    a1: "multiplex_ok pins ?a" and a2: "enabled_digits (replay pins ?a) = []"
    by simp_all
  from b have "set (map pin_of b) \<subseteq> set segmentPin" by simp
  from segment_writes_ok [OF this a2] have
    b1: "multiplex_ok (replay pins ?a) b" and b2: "enabled_digits (replay (replay pins ?a) b) = []"
    by simp_all
  from enable_write_ok [OF c b2] have
    c1: "multiplex_ok (replay (replay pins ?a) b) [c]"
    and c2: "length (enabled_digits (replay (replay (replay pins ?a) b) [c])) \<le> 1"
    by simp_all
  show ?thesis
    unfolding r using a1 b1 c1 c2 by (simp only: multiplex_ok_append replay_append)
qed

lemma rounds_ok:
  "list_all is_round rs \<Longrightarrow> length (enabled_digits pins) \<le> 1 \<Longrightarrow>
   multiplex_ok pins (concat rs) \<and> length (enabled_digits (replay pins (concat rs))) \<le> 1"
proof (induction rs arbitrary: pins)
  case Nil
  then show ?case by simp
next
  case (Cons r rs)
  from Cons.prems have r: "is_round r" and rs: "list_all is_round rs" by simp_all
  from round_ok [OF r Cons.prems(2)] have
    r1: "multiplex_ok pins r" and r2: "length (enabled_digits (replay pins r)) \<le> 1"
    by simp_all
  from Cons.IH [OF rs r2] r1 show ?case
    by (simp add: multiplex_ok_append replay_append)
qed

lemma and_1_bit: "((w :: 8 word) AND 1 \<noteq> 0) = bit w 0"
  by (simp add: and_one_eq mod_2_eq_odd bit_0)

lemma upt_Suc_map: "[0..<Suc n] = 0 # map Suc [0..<n]"
  by (simp add: upt_conv_Cons map_Suc_upt del: upt_Suc)

lemma updateSegments_fold:
  "snd (foldl updateSegments_step (v, es) is)
     = es @ map (\<lambda>j. DigitalWrite (segmentPin ! (is ! j))
                        (if bit v j then SEGMENT_ON else SEGMENT_OFF)) [0..<length is]"
proof (induction "is" arbitrary: v es)
  case Nil
  then show ?case by simp
next
  case (Cons i "is")
  let ?e = "DigitalWrite (segmentPin ! i) (if bit v 0 then SEGMENT_ON else SEGMENT_OFF)"
  have st: "updateSegments_step (v, es) i = (drop_bit 1 v, es @ [?e])"
    by (simp add: and_1_bit)
  have b: "bit (drop_bit 1 v) j = bit v (Suc j)" for j
    by (simp add: bit_drop_bit_eq)
  have "snd (foldl updateSegments_step (v, es) (i # is))
          = snd (foldl updateSegments_step (drop_bit 1 v, es @ [?e]) is)"
    by (simp only: foldl_Cons st)
  also have "\<dots> = (es @ [?e]) @ map (\<lambda>j. DigitalWrite (segmentPin ! (is ! j))
                        (if bit (drop_bit 1 v) j then SEGMENT_ON else SEGMENT_OFF)) [0..<length is]"
    by (rule Cons.IH)
  also have "\<dots> = es @ map (\<lambda>j. DigitalWrite (segmentPin ! ((i # is) ! j))
                        (if bit v j then SEGMENT_ON else SEGMENT_OFF)) [0..<length (i # is)]"
    by (simp only: b length_Cons upt_Suc_map) (simp add: comp_def)
  finally show ?case .
qed

lemma updateSegments_bits:
  "updateSegments v =
     map (\<lambda>k. DigitalWrite (segmentPin ! k) (if bit v k then SEGMENT_ON else SEGMENT_OFF))
       [0, 1, 2, 3, 4, 5, 6, 7]"
  unfolding updateSegments_def len_segmentPin updateSegments_fold
  by (simp add: upt8 eval_nat_numeral)

lemma model_round:
  "digits_off @ updateSegments v @ [DigitalWrite (digitPin ! i) DIGIT_ON] = position_round i v"
  by (simp add: position_round_def digits_off_map updateSegments_bits)

lemma unat_digit:
  "unat (ucast ((v :: 16 word) mod 10) :: 8 word) = unat v mod 10"
proof -
  have "unat (v mod 10) = unat v mod 10" by (simp add: unat_mod)
  moreover have "unat v mod 10 < 256" by (rule less_trans [of _ 10]) simp_all
  ultimately show ?thesis by (simp add: ucast_small)
qed

lemma displayTime_fold_exact:
  "snd (foldl (displayTime_step d) (v, es) is)
     = es @ concat (map (\<lambda>j. position_round (is ! j)
                             (digits ! ((unat v div 10 ^ j) mod 10)
                              + (if d = of_nat (is ! j) then DECIMAL else 0)))
                   [0..<length is])"
proof (induction "is" arbitrary: v es)
  case Nil
  then show ?case by simp
next
  case (Cons i "is")
  let ?r = "position_round i (digits ! (unat v mod 10) + (if d = of_nat i then DECIMAL else 0))"
  have st: "displayTime_step d (v, es) i = (v div 10, es @ ?r)"
    by (simp add: Let_def unat_digit model_round)
  have dv: "unat (v div 10) div 10 ^ j = unat v div 10 ^ Suc j" for j
    by (simp add: unat_div div_mult2_eq)
  have "snd (foldl (displayTime_step d) (v, es) (i # is))
          = snd (foldl (displayTime_step d) (v div 10, es @ ?r) is)"
    by (simp only: foldl_Cons st)
  also have "\<dots> = (es @ ?r) @ concat (map (\<lambda>j. position_round (is ! j)
                             (digits ! ((unat (v div 10) div 10 ^ j) mod 10)
                              + (if d = of_nat (is ! j) then DECIMAL else 0)))
                   [0..<length is])"
    by (rule Cons.IH)
  also have "\<dots> = es @ concat (map (\<lambda>j. position_round ((i # is) ! j)
                             (digits ! ((unat v div 10 ^ j) mod 10)
                              + (if d = of_nat ((i # is) ! j) then DECIMAL else 0)))
                   [0..<length (i # is)])"
    by (simp only: dv length_Cons upt_Suc_map) (simp add: comp_def)
  finally show ?case .
qed

lemma displayTime_exact:
  "displayTime val dec =
     concat [position_round 0 (digits ! (unat val mod 10) + (if dec = 0 then DECIMAL else 0)),
             position_round 1 (digits ! ((unat val div 10) mod 10) + (if dec = 1 then DECIMAL else 0)),
             position_round 2 (digits ! ((unat val div 100) mod 10) + (if dec = 2 then DECIMAL else 0)),
             position_round 3 (digits ! ((unat val div 1000) mod 10) + (if dec = 3 then DECIMAL else 0))]"
  unfolding displayTime_def len_digitPin displayTime_fold_exact
  by (simp add: upt4)

lemma glyph_Nil: "glyph fl [] j = 0"
  by (simp add: glyph_def c_string_def)

lemma glyph_stop: "char_val c = 0 \<Longrightarrow> glyph fl (c # cs) j = 0"
  by (simp add: glyph_def c_string_def)

lemma glyph_0: "char_val c \<noteq> 0 \<Longrightarrow> glyph fl (c # cs) 0 = pgm_read_alpha fl (toupper (char_val c) - 65)"
  by (simp add: glyph_def c_string_def)

lemma glyph_Suc: "char_val c \<noteq> 0 \<Longrightarrow> glyph fl (c # cs) (Suc j) = glyph fl cs j"
  by (simp add: glyph_def c_string_def)

lemma displayMessage_fold_exact:
  "snd (foldl (displayMessage_step fl) (p, es) is)
     = es @ concat (map (\<lambda>j. position_round (is ! j) (glyph fl p j)) [0..<length is])"
proof (induction "is" arbitrary: p es)
  case Nil
  then show ?case by simp
next
  case (Cons i "is")
  define p' where "p' = (case p of [] \<Rightarrow> p | c # cs \<Rightarrow> if char_val c \<noteq> 0 then cs else p)"
  have st: "displayMessage_step fl (p, es) i = (p', es @ position_round i (glyph fl p 0))"
    by (cases p) (simp_all add: p'_def model_round glyph_Nil glyph_stop glyph_0)
  have g: "glyph fl p' j = glyph fl p (Suc j)" for j
    by (cases p) (simp_all add: p'_def glyph_Nil glyph_stop glyph_Suc)
  have "snd (foldl (displayMessage_step fl) (p, es) (i # is))
          = snd (foldl (displayMessage_step fl) (p', es @ position_round i (glyph fl p 0)) is)"
    by (simp only: foldl_Cons st)
  also have "\<dots> = (es @ position_round i (glyph fl p 0))
                    @ concat (map (\<lambda>j. position_round (is ! j) (glyph fl p' j)) [0..<length is])"
    by (rule Cons.IH)
  also have "\<dots> = es @ concat (map (\<lambda>j. position_round ((i # is) ! j) (glyph fl p j))
                                [0..<length (i # is)])"
    by (simp only: g length_Cons upt_Suc_map) (simp add: comp_def)
  finally show ?case .
qed

lemma frame_exact:
  "displayMessage_frame fl msg =
     concat [position_round 3 (glyph fl msg 0), position_round 2 (glyph fl msg 1),
             position_round 1 (glyph fl msg 2), position_round 0 (glyph fl msg 3)]"
  unfolding displayMessage_frame_def len_digitPin displayMessage_fold_exact
  by (simp add: upt4 eval_nat_numeral)

lemma while_exact:
  "displayMessage_while fl msg st dur ts =
     (if list_ex (\<lambda>t. \<not> t - st < ucast dur) ts
      then Some (concat (replicate (frames st dur ts) (displayMessage_frame fl msg)),
                 tl (dropWhile (\<lambda>t. t - st < ucast dur) ts))
      else None)"
  by (induction ts) (simp_all add: frames_def)

lemma displayMessage_exact:
  "displayMessage fl msg dur (st # ts) =
     (if list_ex (\<lambda>t. \<not> t - st < ucast dur) ts
      then Some (concat (replicate (frames st dur ts) (displayMessage_frame fl msg)),
                 tl (dropWhile (\<lambda>t. t - st < ucast dur) ts))
      else None)"
  by (simp add: displayMessage_def while_exact)

lemma is_round_position: "i < 4 \<Longrightarrow> is_round (position_round i v)"
  using is_round_model [of i v] by (simp add: model_round)

lemma position_round_ok:
  assumes "i < 4" "length (enabled_digits pins) \<le> 1"
  shows "multiplex_ok pins (position_round i v)
       \<and> enabled_digits (replay pins (position_round i v)) = [digitPin ! i]"
proof -
  let ?a = "map (\<lambda>p. DigitalWrite p DIGIT_OFF) digitPin"
  let ?b = "map (\<lambda>k. DigitalWrite (segmentPin ! k) (if bit v k then SEGMENT_ON else SEGMENT_OFF))
         [0, 1, 2, 3, 4, 5, 6, 7]"
  let ?c = "DigitalWrite (digitPin ! i) DIGIT_ON"
  have r: "position_round i v = ?a @ ?b @ [?c]" by (simp add: position_round_def)
  from round_ok [OF is_round_position [OF assms(1)] assms(2)]
  have ok: "multiplex_ok pins (position_round i v)" by simp
  from off_writes_ok [OF assms(2)] have a2: "enabled_digits (replay pins ?a) = []" by simp
  have "set (map pin_of ?b) \<subseteq> set segmentPin" by (simp add: segmentPin_def)
  from segment_writes_ok [OF this a2]
  have b2: "enabled_digits (replay (replay pins ?a) ?b) = []" by simp
  have "enabled_digits (digitalWrite q ?c) = [digitPin ! i]" if "enabled_digits q = []" for q
    using that assms(1)
    by (auto simp: enabled_digits_def digitPin_def digitalWrite_def DIGIT_ON_def LOW_def HIGH_def
          filter_empty_conv nth_Cons' split: if_splits)
  from this [OF b2] have "enabled_digits (replay pins (position_round i v)) = [digitPin ! i]"
    by (simp only: r replay_append) simp
  with ok show ?thesis by simp
qed

text \<open>
  C9. The writes of \<open>displayTime\<close> are exactly the four rounds of the positions 0, 1, 2, 3,
  each disabling all digit-select lines, then writing the pattern of the decimal digit of
  that position (with the decimal point at position \<open>dec\<close>), then enabling the line of that
  position. One pass of the body of the loop of \<open>displayMessage\<close> is exactly the four rounds
  of the positions 3, 2, 1, 0 with the patterns of the first four characters, and a
  \<open>displayMessage\<close> that returns has written that pass once for every clock reading before
  the duration had passed. Entered with at most one digit-select line enabled, a round
  writes the segment lines only while every digit-select line is disabled, never leaves
  two digit-select lines enabled, and ends with exactly the line of its position
  enabled; so do both routines as a whole.
\<close>

theorem blank_before_load:
  "displayTime val dec =
     concat [position_round 0 (digits ! (unat val mod 10) + (if dec = 0 then DECIMAL else 0)),
             position_round 1 (digits ! ((unat val div 10) mod 10) + (if dec = 1 then DECIMAL else 0)),
             position_round 2 (digits ! ((unat val div 100) mod 10) + (if dec = 2 then DECIMAL else 0)),
             position_round 3 (digits ! ((unat val div 1000) mod 10) + (if dec = 3 then DECIMAL else 0))]
   \<and> displayMessage_frame fl msg =
       concat [position_round 3 (glyph fl msg 0), position_round 2 (glyph fl msg 1),
               position_round 1 (glyph fl msg 2), position_round 0 (glyph fl msg 3)]
   \<and> displayMessage fl msg dur (st # ts) =
       (if list_ex (\<lambda>t. \<not> t - st < ucast dur) ts
        then Some (concat (replicate (frames st dur ts) (displayMessage_frame fl msg)),
                   tl (dropWhile (\<lambda>t. t - st < ucast dur) ts))
        else None)
   \<and> (i < 4 \<longrightarrow> length (enabled_digits pins) \<le> 1 \<longrightarrow>
        multiplex_ok pins (position_round i v)
        \<and> enabled_digits (replay pins (position_round i v)) = [digitPin ! i])
   \<and> (length (enabled_digits pins) \<le> 1 \<longrightarrow>
        multiplex_ok pins (displayTime val dec)
        \<and> length (enabled_digits (replay pins (displayTime val dec))) \<le> 1
        \<and> (displayMessage fl msg dur clk = Some (es, rest) \<longrightarrow>
             multiplex_ok pins es \<and> length (enabled_digits (replay pins es)) \<le> 1))"
proof (intro conjI impI)
  show "displayTime val dec =
     concat [position_round 0 (digits ! (unat val mod 10) + (if dec = 0 then DECIMAL else 0)),
             position_round 1 (digits ! ((unat val div 10) mod 10) + (if dec = 1 then DECIMAL else 0)),
             position_round 2 (digits ! ((unat val div 100) mod 10) + (if dec = 2 then DECIMAL else 0)),
             position_round 3 (digits ! ((unat val div 1000) mod 10) + (if dec = 3 then DECIMAL else 0))]"
    by (rule displayTime_exact)
next
  show "displayMessage_frame fl msg =
       concat [position_round 3 (glyph fl msg 0), position_round 2 (glyph fl msg 1),
               position_round 1 (glyph fl msg 2), position_round 0 (glyph fl msg 3)]"
    by (rule frame_exact)
next
  show "displayMessage fl msg dur (st # ts) =
       (if list_ex (\<lambda>t. \<not> t - st < ucast dur) ts
        then Some (concat (replicate (frames st dur ts) (displayMessage_frame fl msg)),
                   tl (dropWhile (\<lambda>t. t - st < ucast dur) ts))
        else None)"
    by (rule displayMessage_exact)
next
  assume "i < 4" and "length (enabled_digits pins) \<le> 1"
  from position_round_ok [OF this]
  show "multiplex_ok pins (position_round i v)"
    and "enabled_digits (replay pins (position_round i v)) = [digitPin ! i]"
    by simp_all
next
  assume p: "length (enabled_digits pins) \<le> 1"
  from displayTime_rounds [of val dec] obtain rs where
    "displayTime val dec = concat rs" "list_all is_round rs"
    by blast
  with rounds_ok [OF _ p] show "multiplex_ok pins (displayTime val dec)"
    and "length (enabled_digits (replay pins (displayTime val dec))) \<le> 1"
    by simp_all
next
  assume p: "length (enabled_digits pins) \<le> 1"
    and d: "displayMessage fl msg dur clk = Some (es, rest)"
  from displayMessage_rounds [OF d] obtain rs where
    "es = concat rs" "list_all is_round rs"
    by blast
  with rounds_ok [OF _ p] show "multiplex_ok pins es"
    and "length (enabled_digits (replay pins es)) \<le> 1"
    by simp_all
qed

theorem blank_before_load_witness:
  "displayTime 1205 2 =
     concat [position_round 0 (digits ! 5), position_round 1 (digits ! 0),
             position_round 2 (digits ! 2 + DECIMAL), position_round 3 (digits ! 1)]
   \<and> displayMessage_frame fl0 ''pause'' =
       concat [position_round 3 0x73, position_round 2 0x77,
               position_round 1 0x3e, position_round 0 0x6d]
   \<and> displayMessage fl0 ''pause'' 50 [100, 120, 150, 160]
        = Some (displayMessage_frame fl0 ''pause'', [160])
   \<and> multiplex_ok blanked (position_round 2 (digits ! 2 + DECIMAL))
   \<and> enabled_digits (replay blanked (position_round 2 (digits ! 2 + DECIMAL))) = [6]
   \<and> multiplex_ok blanked (displayTime 1205 2)
   \<and> multiplex_ok blanked (displayMessage_frame fl0 ''pause'')"
proof -
  have d: "displayMessage fl0 ''pause'' 50 [100, 120, 150, 160]
             = Some (displayMessage_frame fl0 ''pause'', [160])"
    by (simp add: displayMessage_def)
  have p: "length (enabled_digits blanked) \<le> 1"
    by code_simp
  have g: "glyph fl0 ''pause'' 0 = 0x73" "glyph fl0 ''pause'' (Suc 0) = 0x77"
    "glyph fl0 ''pause'' 2 = 0x3e" "glyph fl0 ''pause'' 3 = 0x6d"
    by code_simp+
  have u: "unat (1205 :: 16 word) = 1205"
    by simp
  note T = blank_before_load [of 1205 2 fl0 "''pause''" 50 100 "[120, 150, 160]" 2 blanked
      "digits ! 2 + DECIMAL" "[100, 120, 150, 160]" "displayMessage_frame fl0 ''pause''" "[160]"]
  have t1: "displayTime 1205 2 =
     concat [position_round 0 (digits ! 5), position_round 1 (digits ! 0),
             position_round 2 (digits ! 2 + DECIMAL), position_round 3 (digits ! 1)]"
    using T [THEN conjunct1] by (simp add: u)
  have t2: "displayMessage_frame fl0 ''pause'' =
       concat [position_round 3 0x73, position_round 2 0x77,
               position_round 1 0x3e, position_round 0 0x6d]"
    using T [THEN conjunct2, THEN conjunct1] by (simp add: g)
  have t4: "multiplex_ok blanked (position_round 2 (digits ! 2 + DECIMAL))"
    "enabled_digits (replay blanked (position_round 2 (digits ! 2 + DECIMAL))) = [6]"
    using T [THEN conjunct2, THEN conjunct2, THEN conjunct2, THEN conjunct1] p
    by (simp_all add: digitPin_def)
  have t5: "multiplex_ok blanked (displayTime 1205 2)"
    "multiplex_ok blanked (displayMessage_frame fl0 ''pause'')"
    using T [THEN conjunct2, THEN conjunct2, THEN conjunct2, THEN conjunct2] p d
    by simp_all
  from t1 t2 d t4 t5 show ?thesis
    by (intro conjI)
qed

section \<open>Runs from power-on\<close>

text \<open>
  After the key press that arms the timer the stored state is \<open>S_START\<close> and the relay is
  still off: the handler of \<open>S_START\<close> has not run yet.
\<close>

theorem armed_with_relay_off:
  "map_option observe (run_from_boot [0, 1000, 2000] (take 4 arm_5s))
     = Some (S_START, 0, 5, LOW, [])"
  by code_simp

theorem relay_follows_handler_witness:
  "\<exists>m0 m m'. setup_board fl0 [0, 1000, 2000] = Some m0
      \<and> run fl0 (take 4 arm_5s) m0 = Some m
      \<and> state m = S_START \<and> relay m = LOW
      \<and> loop fl0 (pass [3000] DIR_NONE KS_NULL) m = Some m'
      \<and> relay_writes (new_writes m m') = [HIGH] \<and> state m' \<noteq> state m \<and> relay m' = HIGH"
proof -
  have ev: "map_option observe (run_from_boot [0, 1000, 2000] (take 4 arm_5s))
     = Some (S_START, 0, 5, LOW, [])"
    by code_simp
  then obtain m0 m where m0: "setup_board fl0 [0, 1000, 2000] = Some m0"
    and m: "run fl0 (take 4 arm_5s) m0 = Some m" and st: "state m = S_START"
    by (auto simp: run_from_boot_def observe_def split: option.splits)
  obtain m' where m': "loop fl0 (pass [3000] DIR_NONE KS_NULL) m = Some m'"
    using st by (simp add: loop_shown case_START_def pass_def)
  from relay_follows_handler [OF m0 m] m' st
  have "relay m = LOW" "relay_writes (new_writes m m') = [HIGH]" "state m' \<noteq> state m"
    "relay m' = HIGH"
    by auto
  with m0 m st m' show ?thesis
    by blast
qed

text \<open>
  C4, as the sketch does it. With the set point 1 (5 seconds), started at 3000 ms and
  polled every second with no key: the five ticks up to 8000 ms count 0:05 down to 0:00
  and leave the timer running with the relay on; the sixth tick, 6000 ms after the start,
  gives \<open>S_END\<close>, and the pass in \<open>S_END\<close> switches the relay off. Over the whole run the relay
  is written twice, \<open>HIGH\<close> and then \<open>LOW\<close>.
\<close>

theorem countdown_5s:
  "map_option observe (run_from_boot [0, 1000, 2000] arm_5s)
     = Some (S_RUNNING, 0, 5, HIGH, [HIGH])
   \<and> map_option observe (run_from_boot [0, 1000, 2000]
        (arm_5s @ polls [4000, 5000, 6000, 7000, 8000]))
     = Some (S_RUNNING, 0, 0, HIGH, [HIGH])
   \<and> map_option observe (run_from_boot [0, 1000, 2000]
        (arm_5s @ polls [4000, 5000, 6000, 7000, 8000, 9000]))
     = Some (S_END, 0, 59, HIGH, [HIGH])
   \<and> map_option observe (run_from_boot [0, 1000, 2000]
        (arm_5s @ polls [4000, 5000, 6000, 7000, 8000, 9000]
           @ [pass [9000, 10000, 11000] DIR_NONE KS_NULL]))
     = Some (S_INIT, 0, 59, LOW, [HIGH, LOW])"
  by code_simp

text \<open>
  Polled every 500 ms, the same timer is still running at 0:00 with the relay on 5500 ms
  after its start.
\<close>

theorem still_running_after_5500ms:
  "map_option observe (run_from_boot [0, 1000, 2000]
        (arm_5s @ polls [3500, 4000, 4500, 5000, 5500, 6000, 6500, 7000, 7500, 8000, 8500]))
     = Some (S_RUNNING, 0, 0, HIGH, [HIGH])"
  by code_simp

text \<open>
  C5 at a key press. The timer of the run above is at 0:00 after five ticks. When the pass
  that fires the sixth tick also reads a key press, the state becomes \<open>S_PAUSE\<close> with 0:59
  stored, not \<open>S_END\<close>; after the resume the timer runs on from 0:59 with the relay on.
\<close>

theorem press_at_last_tick:
  "map_option observe (run_from_boot [0, 1000, 2000]
        (arm_5s @ polls [4000, 5000, 6000, 7000, 8000]))
     = Some (S_RUNNING, 0, 0, HIGH, [HIGH])
   \<and> map_option observe (run_from_boot [0, 1000, 2000]
        (arm_5s @ polls [4000, 5000, 6000, 7000, 8000] @ [pass [9000] DIR_NONE KS_PRESS]))
     = Some (S_PAUSE, 0, 59, HIGH, [HIGH])
   \<and> map_option observe (run_from_boot [0, 1000, 2000]
        (arm_5s @ polls [4000, 5000, 6000, 7000, 8000] @ [pass [9000] DIR_NONE KS_PRESS,
           pass [9010, 9030, 9060, 9070] DIR_NONE KS_PRESS] @ polls [10070, 11070]))
     = Some (S_RUNNING, 0, 57, HIGH, [HIGH])"
  by code_simp

end
